theory Spec2Isabelle
  imports Complex_Main "HOL-Library.Multiset"
begin

section \<open>Memory model\<close>

text \<open>
  The hit list of \<^verbatim>\<open>p7_tophits.c\<close> is a C structure holding two heap buffers:
  \<^verbatim>\<open>unsrt\<close>, the array of hit records in insertion order, and \<^verbatim>\<open>hit\<close>, an array of
  pointers into \<^verbatim>\<open>unsrt\<close> giving the ranking. The model keeps both buffers by value
  (a list with one element per allocated cell) together with the address at which each
  buffer lives. An address of a hit record is an integer counted in units of one
  \<^verbatim>\<open>P7_HIT\<close>, so that \<^verbatim>\<open>h->unsrt + i\<close> is \<open>unsrt_base h + int i\<close> and the difference of two
  such pointers is integer subtraction.

  A function returns \<open>None\<close> when the C code would read or write outside an allocated
  buffer or through a null pointer (undefined behaviour). The C type \<^verbatim>\<open>int\<close> is modelled
  by \<open>int\<close>; overflow of a C \<^verbatim>\<open>int\<close> is undefined behaviour too and lies outside the
  model. The floating point fields are only compared and copied, never computed with; they
  are modelled by \<open>real\<close>, which orders finite values exactly as C does (a NaN sort key
  is outside the model).
\<close>

type_synonym addr = int

datatype status = eslOK | eslEMEM

text \<open>
  The outcome of one call of \<^verbatim>\<open>malloc\<close> or \<^verbatim>\<open>realloc\<close> is chosen by the environment:
  \<open>NoMem\<close> is the null return, \<open>Mem b junk\<close> is a block at address \<open>b\<close> whose
  cells not covered by old contents hold the indeterminate values \<open>junk i\<close>.
\<close>

datatype 'a alloc = NoMem | Mem addr "nat \<Rightarrow> 'a"

definition malloc_cells :: "nat \<Rightarrow> (nat \<Rightarrow> 'a) \<Rightarrow> 'a list" where
  "malloc_cells n junk = map junk [0..<n]"

definition realloc_cells :: "'a list \<Rightarrow> nat \<Rightarrow> (nat \<Rightarrow> 'a) \<Rightarrow> 'a list" where
  "realloc_cells old n junk = take n old @ map junk [length old..<n]"

text \<open>A C \<^verbatim>\<open>for (i = 0; i < n; i++)\<close> loop over a state, stopping at the first fault.\<close>

fun for_loop :: "nat list \<Rightarrow> (nat \<Rightarrow> 's \<Rightarrow> 's option) \<Rightarrow> 's \<Rightarrow> 's option" where
  "for_loop [] body s = Some s"
| "for_loop (i # js) body s =
     (case body i s of None \<Rightarrow> None | Some s' \<Rightarrow> for_loop js body s')"

section \<open>Data model\<close>

record P7_DOMAIN =
  bitscore :: real
  dom_pvalue :: real
  dom_is_reported :: bool
  ad :: "addr option"

record P7_HIT =
  name :: "string option"
  acc :: "string option"
  desc :: "string option"
  sortkey :: real
  score :: real
  pre_score :: real
  sum_score :: real
  pvalue :: real
  pre_pvalue :: real
  sum_pvalue :: real
  ndom :: int
  nexpected :: real
  nregions :: int
  nclustered :: int
  noverlaps :: int
  nenvelopes :: int
  is_reported :: bool
  nreported :: int
  best_domain :: int
  dcl :: "P7_DOMAIN list option"

record P7_TOPHITS =
  hit :: "addr list"
  hit_base :: addr
  unsrt :: "P7_HIT list"
  unsrt_base :: addr
  Nalloc :: int
  N :: int
  th_nreported :: int
  is_sorted :: bool

text \<open>Pointers into the arena: \<open>deref h p\<close> is \<^verbatim>\<open>*p\<close> for a \<^verbatim>\<open>P7_HIT *p\<close>.\<close>

definition in_arena :: "P7_TOPHITS \<Rightarrow> addr \<Rightarrow> bool" where
  "in_arena h p \<longleftrightarrow> unsrt_base h \<le> p \<and> p < unsrt_base h + int (length (unsrt h))"

definition slot :: "P7_TOPHITS \<Rightarrow> addr \<Rightarrow> nat" where
  "slot h p = nat (p - unsrt_base h)"

definition deref :: "P7_TOPHITS \<Rightarrow> addr \<Rightarrow> P7_HIT option" where
  "deref h p = (if in_arena h p then Some (unsrt h ! slot h p) else None)"

definition poke :: "P7_TOPHITS \<Rightarrow> addr \<Rightarrow> P7_HIT \<Rightarrow> P7_TOPHITS option" where
  "poke h p r = (if in_arena h p then Some (h\<lparr>unsrt := (unsrt h)[slot h p := r]\<rparr>) else None)"

definition view_at :: "P7_TOPHITS \<Rightarrow> nat \<Rightarrow> addr option" where
  "view_at h i = (if i < length (hit h) then Some (hit h ! i) else None)"

definition set_view :: "P7_TOPHITS \<Rightarrow> nat \<Rightarrow> addr \<Rightarrow> P7_TOPHITS option" where
  "set_view h i p = (if i < length (hit h) then Some (h\<lparr>hit := (hit h)[i := p]\<rparr>) else None)"

section \<open>Creation and growth\<close>

text \<open>
  \<^verbatim>\<open>p7_tophits_Create\<close>: three allocations (the structure, the View, the arena); a
  failure of any of them returns \<^verbatim>\<open>NULL\<close>, here \<open>None\<close>.
\<close>

definition default_nalloc :: int where
  "default_nalloc = 256"

definition p7_tophits_Create :: "bool \<Rightarrow> addr alloc \<Rightarrow> P7_HIT alloc \<Rightarrow> P7_TOPHITS option" where
  "p7_tophits_Create a0 a1 a2 =
     (if \<not> a0 then None
      else case a1 of NoMem \<Rightarrow> None
      | Mem bh jh \<Rightarrow>
          (case a2 of NoMem \<Rightarrow> None
           | Mem bu ju \<Rightarrow>
               Some \<lparr> hit = (malloc_cells (nat default_nalloc) jh)[0 := bu],
                      hit_base = bh,
                      unsrt = malloc_cells (nat default_nalloc) ju,
                      unsrt_base = bu,
                      Nalloc = default_nalloc,
                      N = 0,
                      th_nreported = 0,
                      is_sorted = True \<rparr>))"

text \<open>
  \<^verbatim>\<open>p7_tophits_Grow\<close>. \<^verbatim>\<open>ESL_RALLOC(p, tmp, size)\<close> calls \<^verbatim>\<open>realloc\<close>; on success it
  stores the new pointer in \<open>p\<close>, on failure it leaves \<open>p\<close> alone, sets the status to
  \<^verbatim>\<open>eslEMEM\<close> and jumps to \<^verbatim>\<open>ERROR\<close>.
\<close>

definition rebase_view :: "addr \<Rightarrow> nat \<Rightarrow> P7_TOPHITS \<Rightarrow> P7_TOPHITS option" where
  "rebase_view ori i h =
     (case view_at h i of None \<Rightarrow> None
      | Some p \<Rightarrow> set_view h i (unsrt_base h + (p - ori)))"

definition p7_tophits_Grow ::
  "addr alloc \<Rightarrow> P7_HIT alloc \<Rightarrow> P7_TOPHITS \<Rightarrow> (status \<times> P7_TOPHITS) option" where
  "p7_tophits_Grow a1 a2 h =
     (let ori = unsrt_base h; Nalloc' = Nalloc h * 2 in
      if N h < Nalloc h then Some (eslOK, h)
      else case a1 of NoMem \<Rightarrow> Some (eslEMEM, h)
      | Mem bh jh \<Rightarrow>
          (let h1 = h\<lparr>hit := realloc_cells (hit h) (nat Nalloc') jh, hit_base := bh\<rparr> in
           case a2 of NoMem \<Rightarrow> Some (eslEMEM, h1)
           | Mem bu ju \<Rightarrow>
               (let h2 = h1\<lparr>unsrt := realloc_cells (unsrt h1) (nat Nalloc') ju,
                            unsrt_base := bu\<rparr> in
                case (if is_sorted h2 then for_loop [0..<nat (N h2)] (rebase_view ori) h2
                      else Some h2) of
                  None \<Rightarrow> None
                | Some h3 \<Rightarrow> Some (eslOK, h3\<lparr>Nalloc := Nalloc'\<rparr>))))"

text \<open>\<^verbatim>\<open>p7_tophits_CreateNextHit\<close>; the third component is \<^verbatim>\<open>*ret_hit\<close>.\<close>

definition empty_hit :: P7_HIT where
  "empty_hit =
     \<lparr> name = None, acc = None, desc = None, sortkey = 0,
       score = 0, pre_score = 0, sum_score = 0,
       pvalue = 0, pre_pvalue = 0, sum_pvalue = 0,
       ndom = 0, nexpected = 0, nregions = 0, nclustered = 0, noverlaps = 0,
       nenvelopes = 0, is_reported = False, nreported = 0, best_domain = - 1,
       dcl = None \<rparr>"

definition p7_tophits_CreateNextHit ::
  "addr alloc \<Rightarrow> P7_HIT alloc \<Rightarrow> P7_TOPHITS \<Rightarrow> (status \<times> P7_TOPHITS \<times> addr option) option" where
  "p7_tophits_CreateNextHit a1 a2 h =
     (case p7_tophits_Grow a1 a2 h of None \<Rightarrow> None
      | Some (st, h1) \<Rightarrow>
          if st \<noteq> eslOK then Some (st, h1, None)
          else
            (let p = unsrt_base h1 + N h1;
                 h2 = h1\<lparr>N := N h1 + 1\<rparr>;
                 h3 = (if N h2 \<ge> 2 then h2\<lparr>is_sorted := False\<rparr> else h2)
             in case poke h3 p empty_hit of None \<Rightarrow> None
                | Some h4 \<Rightarrow> Some (eslOK, h4, Some p)))"

section \<open>Sorting\<close>

definition hit_sorter :: "P7_HIT \<Rightarrow> P7_HIT \<Rightarrow> int" where
  "hit_sorter h1 h2 =
     (if sortkey h1 < sortkey h2 then 1
      else if sortkey h1 > sortkey h2 then - 1
      else 0)"

text \<open>
  \<^verbatim>\<open>qsort\<close> belongs to the C library. It is a parameter \<open>qs\<close> of the model: \<open>qs cmp xs\<close>
  is the array \<open>xs\<close> after \<^verbatim>\<open>qsort\<close> with comparison function \<open>cmp\<close>. What the C standard
  promises of it is \<open>qsort_contract\<close>: the result is a rearrangement of the input, in
  ascending order of the comparison function when that function is a consistent total
  preorder on the elements; the order of elements that compare equal is unspecified.
\<close>

definition cmp_consistent :: "('a \<Rightarrow> 'a \<Rightarrow> int) \<Rightarrow> 'a set \<Rightarrow> bool" where
  "cmp_consistent cmp S \<longleftrightarrow>
     (\<forall>a\<in>S. \<forall>b\<in>S. (cmp a b < 0 \<longleftrightarrow> 0 < cmp b a) \<and> (cmp a b = 0 \<longleftrightarrow> cmp b a = 0)) \<and>
     (\<forall>a\<in>S. \<forall>b\<in>S. \<forall>c\<in>S. cmp a b \<le> 0 \<and> cmp b c \<le> 0 \<longrightarrow> cmp a c \<le> 0)"

definition qsort_contract :: "(('a \<Rightarrow> 'a \<Rightarrow> int) \<Rightarrow> 'a list \<Rightarrow> 'a list) \<Rightarrow> bool" where
  "qsort_contract qs \<longleftrightarrow>
     (\<forall>cmp xs. mset (qs cmp xs) = mset xs \<and>
        (cmp_consistent cmp (set xs) \<longrightarrow> sorted_wrt (\<lambda>a b. cmp a b \<le> 0) (qs cmp xs)))"

text \<open>One implementation that meets the contract: insertion sort.\<close>

fun insert_by :: "('a \<Rightarrow> 'a \<Rightarrow> int) \<Rightarrow> 'a \<Rightarrow> 'a list \<Rightarrow> 'a list" where
  "insert_by cmp x [] = [x]"
| "insert_by cmp x (y # ys) =
     (if cmp x y \<le> 0 then x # y # ys else y # insert_by cmp x ys)"

definition insertion_qsort :: "('a \<Rightarrow> 'a \<Rightarrow> int) \<Rightarrow> 'a list \<Rightarrow> 'a list" where
  "insertion_qsort cmp xs = foldr (insert_by cmp) xs []"

text \<open>
  \<^verbatim>\<open>p7_tophits_Sort\<close>. The comparison function reads the records its two arguments point
  to; \<^verbatim>\<open>qsort\<close> applies it to the elements of the array only, which are
  \<^verbatim>\<open>h->unsrt + i\<close> for \<open>i < N\<close>, so the reads stay inside the arena exactly when the arena
  has \<open>N\<close> cells.
\<close>

definition view_cmp :: "P7_TOPHITS \<Rightarrow> addr \<Rightarrow> addr \<Rightarrow> int" where
  "view_cmp h p q = hit_sorter (unsrt h ! slot h p) (unsrt h ! slot h q)"

definition p7_tophits_Sort ::
  "((addr \<Rightarrow> addr \<Rightarrow> int) \<Rightarrow> addr list \<Rightarrow> addr list) \<Rightarrow> P7_TOPHITS
     \<Rightarrow> (status \<times> P7_TOPHITS) option" where
  "p7_tophits_Sort qs h =
     (if is_sorted h then Some (eslOK, h)
      else case for_loop [0..<nat (N h)] (\<lambda>i h'. set_view h' i (unsrt_base h' + int i)) h of
        None \<Rightarrow> None
      | Some h1 \<Rightarrow>
          if N h1 > 1 then
            (if length (unsrt h1) < nat (N h1) then None
             else Some (eslOK,
                    h1\<lparr>hit := qs (view_cmp h1) (take (nat (N h1)) (hit h1))
                                @ drop (nat (N h1)) (hit h1),
                       is_sorted := True\<rparr>))
          else Some (eslOK, h1\<lparr>is_sorted := True\<rparr>))"

section \<open>Merging\<close>

text \<open>
  The pieces of \<^verbatim>\<open>p7_tophits_Merge\<close>: \<^verbatim>\<open>memcpy\<close> of the donor's records behind the
  recipient's, the three merging loops over the indices \<open>i\<close>, \<open>j\<close>, \<open>k\<close>, and the
  loop that nulls the donor's string pointers.
\<close>

definition memcpy_hits :: "P7_TOPHITS \<Rightarrow> addr \<Rightarrow> P7_HIT list \<Rightarrow> int \<Rightarrow> P7_TOPHITS option" where
  "memcpy_hits h dst src n =
     (if n < 0 \<or> length src < nat n then None
      else if n = 0 then Some h
      else if in_arena h dst \<and> in_arena h (dst + n - 1)
      then Some (h\<lparr>unsrt := take (slot h dst) (unsrt h) @ take (nat n) src
                           @ drop (slot h dst + nat n) (unsrt h)\<rparr>)
      else None)"

definition put :: "addr list \<Rightarrow> nat \<Rightarrow> addr \<Rightarrow> addr list option" where
  "put xs k v = (if k < length xs then Some (xs[k := v]) else None)"

definition sortkey_at :: "P7_TOPHITS \<Rightarrow> nat \<Rightarrow> real option" where
  "sortkey_at h i =
     (case view_at h i of None \<Rightarrow> None | Some p \<Rightarrow> map_option sortkey (deref h p))"

function merge_heads ::
  "P7_TOPHITS \<Rightarrow> P7_TOPHITS \<Rightarrow> addr \<Rightarrow> nat \<times> nat \<times> nat \<times> addr list
     \<Rightarrow> (nat \<times> nat \<times> nat \<times> addr list) option" where
  "merge_heads h1 h2 new2 (i, j, k, nh) =
     (if i < nat (N h1) \<and> j < nat (N h2) then
        (case sortkey_at h2 j of None \<Rightarrow> None
         | Some kq \<Rightarrow>
        (case sortkey_at h1 i of None \<Rightarrow> None
         | Some kp \<Rightarrow>
             if kq > kp
             then (case view_at h2 j of None \<Rightarrow> None
                   | Some q \<Rightarrow>
                  (case put nh k (new2 + (q - unsrt_base h2)) of None \<Rightarrow> None
                   | Some nh' \<Rightarrow> merge_heads h1 h2 new2 (i, Suc j, Suc k, nh')))
             else (case view_at h1 i of None \<Rightarrow> None
                   | Some p \<Rightarrow>
                  (case put nh k p of None \<Rightarrow> None
                   | Some nh' \<Rightarrow> merge_heads h1 h2 new2 (Suc i, j, Suc k, nh')))))
      else Some (i, j, k, nh))"
  by pat_completeness auto
termination
  by (relation "measure (\<lambda>(h1, h2, new2, i, j, k, nh). (nat (N h1) - i) + (nat (N h2) - j))")
     auto

function drain_recipient ::
  "P7_TOPHITS \<Rightarrow> nat \<times> nat \<times> addr list \<Rightarrow> (nat \<times> nat \<times> addr list) option" where
  "drain_recipient h1 (i, k, nh) =
     (if i < nat (N h1) then
        (case view_at h1 i of None \<Rightarrow> None
         | Some p \<Rightarrow>
        (case put nh k p of None \<Rightarrow> None
         | Some nh' \<Rightarrow> drain_recipient h1 (Suc i, Suc k, nh')))
      else Some (i, k, nh))"
  by pat_completeness auto
termination
  by (relation "measure (\<lambda>(h1, i, k, nh). nat (N h1) - i)") auto

function drain_donor ::
  "P7_TOPHITS \<Rightarrow> addr \<Rightarrow> nat \<times> nat \<times> addr list \<Rightarrow> (nat \<times> nat \<times> addr list) option" where
  "drain_donor h2 new2 (j, k, nh) =
     (if j < nat (N h2) then
        (case view_at h2 j of None \<Rightarrow> None
         | Some q \<Rightarrow>
        (case put nh k (new2 + (q - unsrt_base h2)) of None \<Rightarrow> None
         | Some nh' \<Rightarrow> drain_donor h2 new2 (Suc j, Suc k, nh')))
      else Some (j, k, nh))"
  by pat_completeness auto
termination
  by (relation "measure (\<lambda>(h2, new2, j, k, nh). nat (N h2) - j)") auto

text \<open>
  The three loops one after the other, from the loop state \<open>(i, j, k, new_hit)\<close>: the
  first runs while both lists have entries left, the second and third copy what is left of
  the recipient's and of the donor's View.
\<close>

definition merge_loops ::
  "P7_TOPHITS \<Rightarrow> P7_TOPHITS \<Rightarrow> addr \<Rightarrow> nat \<times> nat \<times> nat \<times> addr list \<Rightarrow> addr list option" where
  "merge_loops h1 h2 new2 s =
     (case merge_heads h1 h2 new2 s of None \<Rightarrow> None
      | Some (i, j, k, nh1) \<Rightarrow>
     (case drain_recipient h1 (i, k, nh1) of None \<Rightarrow> None
      | Some (i', k', nh2) \<Rightarrow>
     (case drain_donor h2 new2 (j, k', nh2) of None \<Rightarrow> None
      | Some (j', k'', nh3) \<Rightarrow> Some nh3)))"

definition nullify :: "nat \<Rightarrow> P7_TOPHITS \<Rightarrow> P7_TOPHITS option" where
  "nullify i h =
     (if i < length (unsrt h)
      then Some (h\<lparr>unsrt := (unsrt h)[i := (unsrt h ! i)\<lparr>name := None, acc := None,
                                                          desc := None\<rparr>]\<rparr>)
      else None)"

text \<open>
  \<^verbatim>\<open>p7_tophits_Merge(h1, h2)\<close>: \<open>a1\<close> is the outcome of the \<^verbatim>\<open>realloc\<close> of
  \<^verbatim>\<open>h1->unsrt\<close>, \<open>a2\<close> that of the \<^verbatim>\<open>malloc\<close> of \<^verbatim>\<open>new_hit\<close>. The result is the
  status and the two structures as the call leaves them.
\<close>

definition p7_tophits_Merge ::
  "((addr \<Rightarrow> addr \<Rightarrow> int) \<Rightarrow> addr list \<Rightarrow> addr list) \<Rightarrow> P7_HIT alloc \<Rightarrow> addr alloc
     \<Rightarrow> P7_TOPHITS \<Rightarrow> P7_TOPHITS \<Rightarrow> (status \<times> P7_TOPHITS \<times> P7_TOPHITS) option" where
  "p7_tophits_Merge qs a1 a2 h1 h2 =
     (let ori1 = unsrt_base h1; Nalloc' = Nalloc h1 + Nalloc h2 in
      case p7_tophits_Sort qs h1 of None \<Rightarrow> None
      | Some (st1, h1a) \<Rightarrow>
      if st1 \<noteq> eslOK then Some (st1, h1a, h2) else
     (case p7_tophits_Sort qs h2 of None \<Rightarrow> None
      | Some (st2, h2a) \<Rightarrow>
      if st2 \<noteq> eslOK then Some (st2, h1a, h2a) else
     (case a1 of NoMem \<Rightarrow> Some (eslEMEM, h1a, h2a)
      | Mem bu ju \<Rightarrow>
     (let h1b = h1a\<lparr>unsrt := realloc_cells (unsrt h1a) (nat Nalloc') ju, unsrt_base := bu\<rparr> in
      case a2 of NoMem \<Rightarrow> Some (eslEMEM, h1b, h2a)
      | Mem bn jn \<Rightarrow>
     (let new_hit = malloc_cells (nat Nalloc') jn in
      case for_loop [0..<nat (N h1b)] (rebase_view ori1) h1b of None \<Rightarrow> None
      | Some h1c \<Rightarrow>
     (let new2 = unsrt_base h1c + N h1c in
      case memcpy_hits h1c new2 (unsrt h2a) (N h2a) of None \<Rightarrow> None
      | Some h1d \<Rightarrow>
     (case merge_loops h1d h2a new2 (0, 0, 0, new_hit) of None \<Rightarrow> None
      | Some nh3 \<Rightarrow>
     (case for_loop [0..<nat (N h2a)] nullify h2a of None \<Rightarrow> None
      | Some h2b \<Rightarrow>
          Some (eslOK,
                h1d\<lparr>hit := nh3, hit_base := bn, Nalloc := Nalloc', N := N h1d + N h2b\<rparr>,
                h2b)))))))))"

section \<open>Destruction\<close>

text \<open>
  \<^verbatim>\<open>p7_tophits_Destroy\<close> changes no hit list; what matters of it is which blocks it
  hands to \<^verbatim>\<open>free\<close> (or to \<^verbatim>\<open>p7_alidisplay_Destroy\<close>), listed here in the order of
  the calls. A string or a domain array stands for the block that holds it.
\<close>

datatype freed =
  FreeView addr | FreeStr string | FreeAd addr | FreeDcl "P7_DOMAIN list"
  | FreeArena addr | FreeStruct

definition free_ad :: "P7_DOMAIN list \<Rightarrow> nat \<Rightarrow> freed list \<Rightarrow> freed list option" where
  "free_ad ds j fs =
     (if j < length ds
      then Some (fs @ (case ad (ds ! j) of None \<Rightarrow> [] | Some a \<Rightarrow> [FreeAd a]))
      else None)"

definition free_hit :: "P7_TOPHITS \<Rightarrow> nat \<Rightarrow> freed list \<Rightarrow> freed list option" where
  "free_hit h i fs =
     (if i < length (unsrt h) then
        (let r = unsrt h ! i;
             fs1 = fs @ (case name r of None \<Rightarrow> [] | Some s \<Rightarrow> [FreeStr s])
                      @ (case acc r of None \<Rightarrow> [] | Some s \<Rightarrow> [FreeStr s])
                      @ (case desc r of None \<Rightarrow> [] | Some s \<Rightarrow> [FreeStr s])
         in case dcl r of None \<Rightarrow> Some fs1
            | Some ds \<Rightarrow>
                (case for_loop [0..<nat (ndom r)] (free_ad ds) fs1 of None \<Rightarrow> None
                 | Some fs2 \<Rightarrow> Some (fs2 @ [FreeDcl ds])))
      else None)"

definition p7_tophits_Destroy :: "P7_TOPHITS \<Rightarrow> freed list option" where
  "p7_tophits_Destroy h =
     (case for_loop [0..<nat (N h)] (free_hit h) [FreeView (hit_base h)] of None \<Rightarrow> None
      | Some fs \<Rightarrow> Some (fs @ [FreeArena (unsrt_base h), FreeStruct]))"

section \<open>Thresholding\<close>

text \<open>
  The pipeline object and its two predicates \<^verbatim>\<open>p7_pli_TargetReportable\<close> and
  \<^verbatim>\<open>p7_pli_DomainReportable\<close> are defined outside this file. Of the pipeline only the two
  fields that \<^verbatim>\<open>p7_tophits_Threshold\<close> touches are named; the predicates are parameters
  \<open>tr\<close> and \<open>dr\<close> that read the pipeline, a score and a P-value.
\<close>

datatype zsetby = p7_ZSETBY_NTARGETS | p7_ZSETBY_OPTION | p7_ZSETBY_FILEINFO

record P7_PIPELINE =
  domZ_setby :: zsetby
  domZ :: real

definition flag_target ::
  "('p \<Rightarrow> real \<Rightarrow> real \<Rightarrow> bool) \<Rightarrow> 'p \<Rightarrow> nat \<Rightarrow> P7_TOPHITS \<Rightarrow> P7_TOPHITS option" where
  "flag_target tr pli i th =
     (case view_at th i of None \<Rightarrow> None
      | Some p \<Rightarrow>
     (case deref th p of None \<Rightarrow> None
      | Some r \<Rightarrow>
          if tr pli (score r) (pvalue r)
          then (case poke th p (r\<lparr>is_reported := True\<rparr>) of None \<Rightarrow> None
                | Some th' \<Rightarrow> Some (th'\<lparr>th_nreported := th_nreported th' + 1\<rparr>))
          else Some th))"

definition flag_domain ::
  "('p \<Rightarrow> real \<Rightarrow> real \<Rightarrow> bool) \<Rightarrow> 'p \<Rightarrow> nat \<Rightarrow> P7_HIT \<Rightarrow> P7_HIT option" where
  "flag_domain dr pli d r =
     (case dcl r of None \<Rightarrow> None
      | Some ds \<Rightarrow>
          if d < length ds then
            (if best_domain r = int d \<or> dr pli (bitscore (ds ! d)) (dom_pvalue (ds ! d))
             then Some (r\<lparr>nreported := nreported r + 1,
                          dcl := Some (ds[d := (ds ! d)\<lparr>dom_is_reported := True\<rparr>])\<rparr>)
             else Some r)
          else None)"

definition flag_domains ::
  "('p \<Rightarrow> real \<Rightarrow> real \<Rightarrow> bool) \<Rightarrow> 'p \<Rightarrow> nat \<Rightarrow> P7_TOPHITS \<Rightarrow> P7_TOPHITS option" where
  "flag_domains dr pli i th =
     (case view_at th i of None \<Rightarrow> None
      | Some p \<Rightarrow>
     (case deref th p of None \<Rightarrow> None
      | Some r \<Rightarrow>
          if is_reported r
          then (case for_loop [0..<nat (ndom r)] (flag_domain dr pli) r of None \<Rightarrow> None
                | Some r' \<Rightarrow> poke th p r')
          else Some th))"

definition p7_tophits_Threshold ::
  "('x P7_PIPELINE_scheme \<Rightarrow> real \<Rightarrow> real \<Rightarrow> bool)
     \<Rightarrow> ('x P7_PIPELINE_scheme \<Rightarrow> real \<Rightarrow> real \<Rightarrow> bool)
     \<Rightarrow> P7_TOPHITS \<Rightarrow> 'x P7_PIPELINE_scheme
     \<Rightarrow> (status \<times> P7_TOPHITS \<times> 'x P7_PIPELINE_scheme) option" where
  "p7_tophits_Threshold tr dr th pli =
     (case for_loop [0..<nat (N th)] (flag_target tr pli) (th\<lparr>th_nreported := 0\<rparr>) of
        None \<Rightarrow> None
      | Some th1 \<Rightarrow>
     (let pli1 = (if domZ_setby pli = p7_ZSETBY_NTARGETS
                  then pli\<lparr>domZ := real_of_int (th_nreported th1)\<rparr> else pli) in
      case for_loop [0..<nat (N th1)] (flag_domains dr pli1) th1 of None \<Rightarrow> None
      | Some th2 \<Rightarrow> Some (eslOK, th2, pli1)))"

section \<open>Well-formed lists and what the View shows\<close>

text \<open>
  \<open>buffers_ok\<close>: both buffers have \<open>Nalloc\<close> cells and hold the \<open>N\<close> records.
  \<open>view_valid\<close>: the first \<open>N\<close> View entries are a rearrangement of the addresses of the
  \<open>N\<close> records. \<open>view_descending\<close>: along the View the sort keys never increase.
  \<open>tophits_inv\<close>: the buffers are in order and a list flagged as sorted has a valid,
  descending View.
\<close>

definition arena_addrs :: "P7_TOPHITS \<Rightarrow> addr list" where
  "arena_addrs h = map (\<lambda>i. unsrt_base h + int i) [0..<nat (N h)]"

definition buffers_ok :: "P7_TOPHITS \<Rightarrow> bool" where
  "buffers_ok h \<longleftrightarrow>
     0 \<le> N h \<and> N h \<le> Nalloc h \<and>
     length (hit h) = nat (Nalloc h) \<and> length (unsrt h) = nat (Nalloc h)"

definition view_valid :: "P7_TOPHITS \<Rightarrow> bool" where
  "view_valid h \<longleftrightarrow>
     nat (N h) \<le> length (hit h) \<and> nat (N h) \<le> length (unsrt h) \<and>
     mset (take (nat (N h)) (hit h)) = mset (arena_addrs h)"

definition view_descending :: "P7_TOPHITS \<Rightarrow> bool" where
  "view_descending h \<longleftrightarrow>
     (\<forall>i j. i < j \<and> j < nat (N h) \<longrightarrow>
        (\<exists>ri rj. deref h (hit h ! i) = Some ri \<and> deref h (hit h ! j) = Some rj \<and>
                 sortkey rj \<le> sortkey ri))"

definition tophits_inv :: "P7_TOPHITS \<Rightarrow> bool" where
  "tophits_inv h \<longleftrightarrow> buffers_ok h \<and> (is_sorted h \<longrightarrow> view_valid h \<and> view_descending h)"

text \<open>The records the View shows, in rank order.\<close>

definition view_records :: "P7_TOPHITS \<Rightarrow> P7_HIT option list" where
  "view_records h = map (deref h) (take (nat (N h)) (hit h))"

text \<open>A caller that appends with \<^verbatim>\<open>p7_tophits_CreateNextHit\<close> once per allocator outcome.\<close>

fun appends :: "(addr alloc \<times> P7_HIT alloc) list \<Rightarrow> P7_TOPHITS \<Rightarrow> P7_TOPHITS option" where
  "appends [] h = Some h"
| "appends (a # as) h =
     (case p7_tophits_CreateNextHit (fst a) (snd a) h of None \<Rightarrow> None
      | Some (st, h', r) \<Rightarrow> appends as h')"

text \<open>
  The two-way merge of the recipient's View entries \<open>ps\<close> and the donor's \<open>qs\<close> on
  lists: \<open>k1\<close> and \<open>k2\<close> read the sort key behind an entry, \<open>tr\<close> carries a donor entry
  over to its copy in the recipient's arena.
\<close>

fun merge_views ::
  "(addr \<Rightarrow> real) \<Rightarrow> (addr \<Rightarrow> real) \<Rightarrow> (addr \<Rightarrow> addr) \<Rightarrow> addr list \<Rightarrow> addr list \<Rightarrow> addr list" where
  "merge_views k1 k2 tr [] qs = map tr qs"
| "merge_views k1 k2 tr (p # ps) [] = p # ps"
| "merge_views k1 k2 tr (p # ps) (q # qs) =
     (if k2 q > k1 p then tr q # merge_views k1 k2 tr (p # ps) qs
      else p # merge_views k1 k2 tr ps (q # qs))"

text \<open>
  Both passes of \<^verbatim>\<open>p7_tophits_Threshold\<close> visit the record behind each View entry in
  turn: \<open>visit g c\<close> replaces the record \<open>r\<close> by \<open>g r\<close> and adds \<open>c r\<close> to the
  list's reported count.
\<close>

definition visit ::
  "(P7_HIT \<Rightarrow> P7_HIT option) \<Rightarrow> (P7_HIT \<Rightarrow> int) \<Rightarrow> nat \<Rightarrow> P7_TOPHITS \<Rightarrow> P7_TOPHITS option" where
  "visit g c i th =
     (case view_at th i of None \<Rightarrow> None
      | Some p \<Rightarrow>
     (case deref th p of None \<Rightarrow> None
      | Some r \<Rightarrow>
     (case g r of None \<Rightarrow> None
      | Some r' \<Rightarrow> Some (th\<lparr>unsrt := (unsrt th)[slot th p := r'],
                              th_nreported := th_nreported th + c r\<rparr>))))"

definition mark_target :: "('p \<Rightarrow> real \<Rightarrow> real \<Rightarrow> bool) \<Rightarrow> 'p \<Rightarrow> P7_HIT \<Rightarrow> P7_HIT" where
  "mark_target tr pli r = (if tr pli (score r) (pvalue r) then r\<lparr>is_reported := True\<rparr> else r)"

definition mark_domains ::
  "('p \<Rightarrow> real \<Rightarrow> real \<Rightarrow> bool) \<Rightarrow> 'p \<Rightarrow> P7_HIT \<Rightarrow> P7_HIT option" where
  "mark_domains dr pli r =
     (if is_reported r then for_loop [0..<nat (ndom r)] (flag_domain dr pli) r else Some r)"

text \<open>
  The inner loop of the second pass in closed form: \<open>selects\<close> is the loop's test for
  domain \<open>d\<close>, \<open>mark_closed\<close> the record after the loop has run over all \<open>ndom\<close>
  domains.
\<close>

definition selects ::
  "('p \<Rightarrow> real \<Rightarrow> real \<Rightarrow> bool) \<Rightarrow> 'p \<Rightarrow> int \<Rightarrow> P7_DOMAIN list \<Rightarrow> nat \<Rightarrow> bool" where
  "selects dr pli best ds d \<longleftrightarrow> best = int d \<or> dr pli (bitscore (ds ! d)) (dom_pvalue (ds ! d))"

definition mark_upto ::
  "('p \<Rightarrow> real \<Rightarrow> real \<Rightarrow> bool) \<Rightarrow> 'p \<Rightarrow> nat \<Rightarrow> P7_DOMAIN list \<Rightarrow> P7_HIT \<Rightarrow> P7_HIT" where
  "mark_upto dr pli m ds r =
     r\<lparr>nreported := nreported r
          + int (length (filter (selects dr pli (best_domain r) ds) [0..<m])),
       dcl := Some (map (\<lambda>d. if d < m \<and> selects dr pli (best_domain r) ds d
                              then (ds ! d)\<lparr>dom_is_reported := True\<rparr> else ds ! d)
                        [0..<length ds])\<rparr>"

definition mark_closed :: "('p \<Rightarrow> real \<Rightarrow> real \<Rightarrow> bool) \<Rightarrow> 'p \<Rightarrow> P7_HIT \<Rightarrow> P7_HIT" where
  "mark_closed dr pli r =
     (case dcl r of None \<Rightarrow> r | Some ds \<Rightarrow> mark_upto dr pli (nat (ndom r)) ds r)"

text \<open>
  What one call of \<^verbatim>\<open>p7_tophits_Threshold\<close> computes: the number of records the target
  predicate accepts, the pipeline after the first pass, and the record after both passes.
\<close>

definition count_targets :: "('p \<Rightarrow> real \<Rightarrow> real \<Rightarrow> bool) \<Rightarrow> 'p \<Rightarrow> P7_TOPHITS \<Rightarrow> int" where
  "count_targets tr pli th =
     sum_list (map (\<lambda>r. if tr pli (score r) (pvalue r) then 1 else 0)
                 (take (nat (N th)) (unsrt th)))"

definition pli_after ::
  "('x P7_PIPELINE_scheme \<Rightarrow> real \<Rightarrow> real \<Rightarrow> bool) \<Rightarrow> 'x P7_PIPELINE_scheme \<Rightarrow> P7_TOPHITS
     \<Rightarrow> 'x P7_PIPELINE_scheme" where
  "pli_after tr pli th =
     (if domZ_setby pli = p7_ZSETBY_NTARGETS
      then pli\<lparr>domZ := real_of_int (count_targets tr pli th)\<rparr> else pli)"

definition classify ::
  "('p \<Rightarrow> real \<Rightarrow> real \<Rightarrow> bool) \<Rightarrow> ('p \<Rightarrow> real \<Rightarrow> real \<Rightarrow> bool) \<Rightarrow> 'p \<Rightarrow> 'p \<Rightarrow> P7_HIT \<Rightarrow> P7_HIT" where
  "classify tr dr pli pli1 r =
     (if is_reported (mark_target tr pli r) then mark_closed dr pli1 (mark_target tr pli r)
      else mark_target tr pli r)"

text \<open>
  \<open>domains_ok\<close>: the record's domain array has the \<open>ndom\<close> cells the record announces.
  \<open>fresh_hit\<close>: nothing of the record has been flagged or counted yet, as
  \<^verbatim>\<open>p7_tophits_CreateNextHit\<close> leaves it. \<open>n_reported_domains\<close>: how many of the
  record's \<open>ndom\<close> domains are flagged as reported.
\<close>

definition domains_ok :: "P7_HIT \<Rightarrow> bool" where
  "domains_ok r = (case dcl r of None \<Rightarrow> ndom r \<le> 0 | Some ds \<Rightarrow> nat (ndom r) \<le> length ds)"

definition fresh_hit :: "P7_HIT \<Rightarrow> bool" where
  "fresh_hit r \<longleftrightarrow>
     \<not> is_reported r \<and> nreported r = 0 \<and>
     (case dcl r of None \<Rightarrow> True | Some ds \<Rightarrow> list_all (\<lambda>d. \<not> dom_is_reported d) ds)"

definition n_reported_domains :: "P7_HIT \<Rightarrow> int" where
  "n_reported_domains r =
     (case dcl r of None \<Rightarrow> 0
      | Some ds \<Rightarrow> int (length (filter dom_is_reported (take (nat (ndom r)) ds))))"

text \<open>
  \<^verbatim>\<open>p7_tophits_Merge\<close> of two sorted lists in closed form, when both allocations
  succeed with the arena at \<open>bu\<close> (fresh cells \<open>ju\<close>) and the new View at \<open>bn\<close> (fresh
  cells \<open>jn\<close>): the recipient's View entries carried over to the new arena, the new
  arena, the merged View, the recipient and the donor after the call.
\<close>

definition rebased :: "addr \<Rightarrow> P7_TOPHITS \<Rightarrow> addr list" where
  "rebased bu h = map (\<lambda>p. bu + (p - unsrt_base h)) (take (nat (N h)) (hit h))"

definition merged_arena :: "(nat \<Rightarrow> P7_HIT) \<Rightarrow> P7_TOPHITS \<Rightarrow> P7_TOPHITS \<Rightarrow> P7_HIT list" where
  "merged_arena ju h1 h2 =
     take (nat (N h1)) (unsrt h1) @ take (nat (N h2)) (unsrt h2)
       @ drop (nat (N h1) + nat (N h2))
           (realloc_cells (unsrt h1) (nat (Nalloc h1 + Nalloc h2)) ju)"

definition merged_view :: "addr \<Rightarrow> (nat \<Rightarrow> P7_HIT) \<Rightarrow> P7_TOPHITS \<Rightarrow> P7_TOPHITS \<Rightarrow> addr list" where
  "merged_view bu ju h1 h2 =
     merge_views (\<lambda>p. sortkey (merged_arena ju h1 h2 ! nat (p - bu)))
       (\<lambda>q. sortkey (unsrt h2 ! slot h2 q))
       (\<lambda>q. bu + N h1 + (q - unsrt_base h2))
       (rebased bu h1) (take (nat (N h2)) (hit h2))"

definition merged ::
  "addr \<Rightarrow> (nat \<Rightarrow> P7_HIT) \<Rightarrow> addr \<Rightarrow> (nat \<Rightarrow> addr) \<Rightarrow> P7_TOPHITS \<Rightarrow> P7_TOPHITS \<Rightarrow> P7_TOPHITS" where
  "merged bu ju bn jn h1 h2 =
     h1\<lparr>hit := merged_view bu ju h1 h2
               @ drop (nat (N h1) + nat (N h2))
                   (malloc_cells (nat (Nalloc h1 + Nalloc h2)) jn),
        hit_base := bn,
        unsrt := merged_arena ju h1 h2,
        unsrt_base := bu,
        Nalloc := Nalloc h1 + Nalloc h2,
        N := N h1 + N h2\<rparr>"

definition drained :: "P7_TOPHITS \<Rightarrow> P7_TOPHITS" where
  "drained h2 =
     h2\<lparr>unsrt := map (\<lambda>r. r\<lparr>name := None, acc := None, desc := None\<rparr>)
                    (take (nat (N h2)) (unsrt h2)) @ drop (nat (N h2)) (unsrt h2)\<rparr>"

section \<open>Example lists\<close>

definition junk_addr :: "nat \<Rightarrow> addr" where
  "junk_addr i = 0"

definition junk_hit :: "nat \<Rightarrow> P7_HIT" where
  "junk_hit i = empty_hit"

definition mk_hit :: "string \<Rightarrow> real \<Rightarrow> P7_HIT" where
  "mk_hit nm k = empty_hit\<lparr>name := Some nm, sortkey := k\<rparr>"

text \<open>Three records with sort keys 0.5, 10 and 0.1, appended in that order, not yet sorted.\<close>

definition list_abc :: P7_TOPHITS where
  "list_abc =
     \<lparr> hit = [0, 0, 0, 0], hit_base = 10,
       unsrt = [mk_hit ''a'' 0.5, mk_hit ''b'' 10, mk_hit ''c'' 0.1, empty_hit],
       unsrt_base = 100, Nalloc = 4, N = 3, th_nreported = 0, is_sorted = False \<rparr>"

definition list_abc_sorted :: P7_TOPHITS where
  "list_abc_sorted = list_abc\<lparr>hit := [101, 100, 102, 0], is_sorted := True\<rparr>"

text \<open>A second list: ``top'' with key 20 and ``bottom'' with key -1.\<close>

definition list_tb :: P7_TOPHITS where
  "list_tb =
     \<lparr> hit = [0, 0], hit_base = 20,
       unsrt = [mk_hit ''bottom'' (- 1), mk_hit ''top'' 20],
       unsrt_base = 200, Nalloc = 2, N = 2, th_nreported = 0, is_sorted = False \<rparr>"

definition list_tb_sorted :: P7_TOPHITS where
  "list_tb_sorted = list_tb\<lparr>hit := [201, 200], is_sorted := True\<rparr>"

text \<open>Two one-record lists whose records have the same sort key.\<close>

definition list_r :: P7_TOPHITS where
  "list_r =
     \<lparr> hit = [300], hit_base = 30, unsrt = [mk_hit ''recipient'' 1],
       unsrt_base = 300, Nalloc = 1, N = 1, th_nreported = 0, is_sorted = True \<rparr>"

definition list_d :: P7_TOPHITS where
  "list_d =
     \<lparr> hit = [400], hit_base = 40, unsrt = [mk_hit ''donor'' 1],
       unsrt_base = 400, Nalloc = 1, N = 1, th_nreported = 0, is_sorted = True \<rparr>"

text \<open>The lists above after merging: \<open>list_d\<close> into \<open>list_r\<close>, \<open>list_tb\<close> into \<open>list_abc\<close>.\<close>

definition merged_rd :: P7_TOPHITS where
  "merged_rd =
     \<lparr> hit = [700, 701], hit_base = 70,
       unsrt = [mk_hit ''recipient'' 1, mk_hit ''donor'' 1],
       unsrt_base = 700, Nalloc = 2, N = 2, th_nreported = 0, is_sorted = True \<rparr>"

definition merged_abc_tb :: P7_TOPHITS where
  "merged_abc_tb =
     \<lparr> hit = [704, 701, 700, 702, 703, 0], hit_base = 70,
       unsrt = [mk_hit ''a'' 0.5, mk_hit ''b'' 10, mk_hit ''c'' 0.1,
                mk_hit ''bottom'' (- 1), mk_hit ''top'' 20, empty_hit],
       unsrt_base = 700, Nalloc = 6, N = 5, th_nreported = 0, is_sorted = True \<rparr>"

text \<open>A one-record list whose record owns an array of two domains.\<close>

definition dom_a :: P7_DOMAIN where
  "dom_a = \<lparr> bitscore = 30, dom_pvalue = 0.001, dom_is_reported = False, ad = Some 7000 \<rparr>"

definition dom_b :: P7_DOMAIN where
  "dom_b = \<lparr> bitscore = 5, dom_pvalue = 0.5, dom_is_reported = False, ad = None \<rparr>"

definition hit_dom :: P7_HIT where
  "hit_dom = (mk_hit ''dom'' 3)\<lparr>score := 35, ndom := 2, best_domain := 0,
                                   dcl := Some [dom_a, dom_b]\<rparr>"

definition list_dom :: P7_TOPHITS where
  "list_dom =
     \<lparr> hit = [500], hit_base = 50, unsrt = [hit_dom],
       unsrt_base = 500, Nalloc = 1, N = 1, th_nreported = 0, is_sorted = True \<rparr>"

text \<open>The same, but the record's best domain was never set.\<close>

definition list_nobest :: P7_TOPHITS where
  "list_nobest = list_dom\<lparr>unsrt := [hit_dom\<lparr>best_domain := - 1\<rparr>]\<rparr>"

text \<open>The record of \<open>list_dom\<close> after one and after two thresholding calls.\<close>

definition hit_dom_once :: P7_HIT where
  "hit_dom_once = hit_dom\<lparr>is_reported := True, nreported := 1,
                           dcl := Some [dom_a\<lparr>dom_is_reported := True\<rparr>, dom_b]\<rparr>"

definition hit_dom_twice :: P7_HIT where
  "hit_dom_twice = hit_dom_once\<lparr>nreported := 2\<rparr>"

text \<open>A list as \<^verbatim>\<open>p7_tophits_Create\<close> returns it, and the same after two appends.\<close>

definition fresh_list :: P7_TOPHITS where
  "fresh_list =
     \<lparr> hit = (malloc_cells 256 junk_addr)[0 := 100], hit_base = 10,
       unsrt = malloc_cells 256 junk_hit,
       unsrt_base = 100, Nalloc = 256, N = 0, th_nreported = 0, is_sorted = True \<rparr>"

definition two_list :: P7_TOPHITS where
  "two_list = fresh_list\<lparr>N := 2, is_sorted := False\<rparr>"

text \<open>
  A second list as \<^verbatim>\<open>p7_tophits_Create\<close> returns it, at other addresses; the first
  after the second has been merged into it (arena reallocated at 700, new View at 70, its
  cells fresh from \<^verbatim>\<open>malloc\<close>); and that list after one append.
\<close>

definition fresh_list2 :: P7_TOPHITS where
  "fresh_list2 =
     \<lparr> hit = (malloc_cells 256 junk_addr)[0 := 2000], hit_base = 20,
       unsrt = malloc_cells 256 junk_hit,
       unsrt_base = 2000, Nalloc = 256, N = 0, th_nreported = 0, is_sorted = True \<rparr>"

definition merged_empty :: P7_TOPHITS where
  "merged_empty =
     \<lparr> hit = malloc_cells 512 junk_addr, hit_base = 70,
       unsrt = malloc_cells 512 junk_hit,
       unsrt_base = 700, Nalloc = 512, N = 0, th_nreported = 0, is_sorted = True \<rparr>"

definition merged_one :: P7_TOPHITS where
  "merged_one = merged_empty\<lparr>unsrt := (unsrt merged_empty)[0 := empty_hit], N := 1\<rparr>"

text \<open>
  \<open>list_abc\<close>, sorted, after a merge in which the arena was reallocated at 700 and the
  allocation of the new View failed.
\<close>

definition list_abc_moved :: P7_TOPHITS where
  "list_abc_moved =
     list_abc_sorted\<lparr>unsrt := [mk_hit ''a'' 0.5, mk_hit ''b'' 10, mk_hit ''c'' 0.1, empty_hit,
                                 empty_hit, empty_hit],
                      unsrt_base := 700\<rparr>"

text \<open>A pipeline and predicates: accept everything, reject everything, accept scores from 10.\<close>

definition pli0 :: P7_PIPELINE where
  "pli0 = \<lparr> domZ_setby = p7_ZSETBY_NTARGETS, domZ = 0 \<rparr>"

definition accept_all :: "P7_PIPELINE \<Rightarrow> real \<Rightarrow> real \<Rightarrow> bool" where
  "accept_all pli sc pv = True"

definition reject_all :: "P7_PIPELINE \<Rightarrow> real \<Rightarrow> real \<Rightarrow> bool" where
  "reject_all pli sc pv = False"

definition accept_10 :: "P7_PIPELINE \<Rightarrow> real \<Rightarrow> real \<Rightarrow> bool" where
  "accept_10 pli sc pv \<longleftrightarrow> 10 \<le> sc"

section \<open>Loops\<close>

lemma for_loop_append:
  "for_loop (xs @ ys) body s =
     (case for_loop xs body s of None \<Rightarrow> None | Some s' \<Rightarrow> for_loop ys body s')"
  by (induction xs arbitrary: s) (auto split: option.splits)

lemma for_loop_upt_Suc:
  "for_loop [0..<Suc n] body s =
     (case for_loop [0..<n] body s of None \<Rightarrow> None | Some s' \<Rightarrow> body n s')"
  by (simp add: for_loop_append split: option.splits)

lemma for_loop_preserves:
  assumes "\<And>i s s'. body i s = Some s' \<Longrightarrow> f s' = f s"
    and "for_loop xs body s = Some s'"
  shows "f s' = f s"
  using assms(2)
proof (induction xs arbitrary: s)
  case Nil
  then show ?case by simp
next
  case (Cons i js)
  then obtain s1 where b: "body i s = Some s1" and r: "for_loop js body s1 = Some s'"
    by (auto split: option.splits)
  from Cons.IH [OF r] assms(1) [OF b] show ?case by simp
qed

lemma list_update_at_length:
  "length ys = n \<Longrightarrow> n < length xs \<Longrightarrow>
     (ys @ drop n xs)[n := v] = (ys @ [v]) @ drop (Suc n) xs"
  by (simp add: list_update_append Cons_nth_drop_Suc [symmetric])

lemma fill_view_loop:
  "for_loop [0..<n] (\<lambda>i h'. set_view h' i (unsrt_base h' + int i)) h =
     (if n \<le> length (hit h)
      then Some (h\<lparr>hit := map (\<lambda>i. unsrt_base h + int i) [0..<n] @ drop n (hit h)\<rparr>)
      else None)"
proof (induction n)
  case 0
  then show ?case by simp
next
  case (Suc n)
  show ?case
  proof (cases "n < length (hit h)")
    case True
    then show ?thesis
      using Suc
      by (simp add: for_loop_upt_Suc set_view_def list_update_at_length del: upt_Suc)
         (simp)
  next
    case False
    then show ?thesis
      using Suc
      by (auto simp add: for_loop_upt_Suc set_view_def simp del: upt_Suc)
  qed
qed

section \<open>Sorting: the View after \<^verbatim>\<open>p7_tophits_Sort\<close>\<close>

lemma view_cmp_hit_update [simp]: "view_cmp (h\<lparr>hit := v\<rparr>) = view_cmp h"
  by (intro ext) (simp add: view_cmp_def slot_def)

lemma Sort_unsorted:
  assumes "\<not> is_sorted h"
  shows "p7_tophits_Sort qs h =
     (if nat (N h) \<le> length (hit h) then
        (if N h > 1 then
           (if length (unsrt h) < nat (N h) then None
            else Some (eslOK,
                   h\<lparr>hit := qs (view_cmp h) (map (\<lambda>i. unsrt_base h + int i) [0..<nat (N h)])
                              @ drop (nat (N h)) (hit h),
                     is_sorted := True\<rparr>))
         else Some (eslOK,
                h\<lparr>hit := map (\<lambda>i. unsrt_base h + int i) [0..<nat (N h)]
                             @ drop (nat (N h)) (hit h),
                  is_sorted := True\<rparr>))
      else None)"
  using assms by (simp add: p7_tophits_Sort_def fill_view_loop)

lemma Sort_sets_flag:
  assumes "p7_tophits_Sort qs h = Some (st, h')"
  shows "is_sorted h' \<and> st = eslOK"
proof (cases "is_sorted h")
  case True
  with assms show ?thesis by (simp add: p7_tophits_Sort_def)
next
  case False
  with assms show ?thesis
    by (auto simp add: Sort_unsorted split: if_splits)
qed

lemma Sort_list_abc:
  "p7_tophits_Sort insertion_qsort list_abc = Some (eslOK, list_abc_sorted)"
  by code_simp

text \<open>
  C8. \<^verbatim>\<open>p7_tophits_Sort\<close> is idempotent: when a call returns, a second call right after
  it returns the same status and leaves the list exactly as the first call left it (the
  same View entry at every position, and every other field too), because the first call
  has set the sorted flag and the second returns at once.
\<close>

theorem sort_idempotent:
  assumes "p7_tophits_Sort qs h = Some (st, h')"
  shows "p7_tophits_Sort qs h' = Some (st, h')"
  using Sort_sets_flag [OF assms] by (simp add: p7_tophits_Sort_def)

theorem sort_idempotent_witness:
  "p7_tophits_Sort insertion_qsort list_abc = Some (eslOK, list_abc_sorted) \<and>
   p7_tophits_Sort insertion_qsort list_abc_sorted = Some (eslOK, list_abc_sorted)"
  using sort_idempotent [OF Sort_list_abc] Sort_list_abc by simp

section \<open>Growth and appending\<close>

lemma rebase_view_frame:
  "rebase_view ori i h = Some h' \<Longrightarrow>
     (N h', is_sorted h', th_nreported h', unsrt h', unsrt_base h', Nalloc h', hit_base h',
      length (hit h')) =
     (N h, is_sorted h, th_nreported h, unsrt h, unsrt_base h, Nalloc h, hit_base h,
      length (hit h))"
  by (auto simp add: rebase_view_def set_view_def view_at_def split: option.splits if_splits)

lemma rebase_loop_frame:
  assumes "for_loop xs (rebase_view ori) h = Some h'"
  shows "N h' = N h \<and> is_sorted h' = is_sorted h \<and> th_nreported h' = th_nreported h \<and>
         unsrt h' = unsrt h \<and> unsrt_base h' = unsrt_base h \<and> Nalloc h' = Nalloc h \<and>
         hit_base h' = hit_base h \<and> length (hit h') = length (hit h)"
proof -
  have "(N h', is_sorted h', th_nreported h', unsrt h', unsrt_base h', Nalloc h', hit_base h',
      length (hit h')) =
     (N h, is_sorted h, th_nreported h, unsrt h, unsrt_base h, Nalloc h, hit_base h,
      length (hit h))"
    using rebase_view_frame assms by (rule for_loop_preserves)
  then show ?thesis by simp
qed

lemma Grow_room: "N h < Nalloc h \<Longrightarrow> p7_tophits_Grow a1 a2 h = Some (eslOK, h)"
  by (simp add: p7_tophits_Grow_def)

lemma Grow_frame:
  assumes "p7_tophits_Grow a1 a2 h = Some (st, h')"
  shows "N h' = N h \<and> is_sorted h' = is_sorted h \<and> th_nreported h' = th_nreported h"
  using assms
  by (auto simp add: p7_tophits_Grow_def Let_def
      split: alloc.splits option.splits if_splits dest!: rebase_loop_frame)

lemma CreateNextHit_flag:
  assumes "p7_tophits_CreateNextHit a1 a2 h = Some (st, h', r)"
  shows "(st = eslOK \<longrightarrow> N h' = N h + 1 \<and> (is_sorted h' \<longleftrightarrow> is_sorted h \<and> N h' < 2)) \<and>
         (st \<noteq> eslOK \<longrightarrow> N h' = N h \<and> is_sorted h' = is_sorted h)"
  using assms
  by (auto simp add: p7_tophits_CreateNextHit_def Let_def poke_def
      split: option.splits if_splits prod.splits dest!: Grow_frame)

lemma appends_flag:
  assumes "appends as h = Some h'" and "is_sorted h \<longleftrightarrow> N h < 2"
  shows "is_sorted h' \<longleftrightarrow> N h' < 2"
  using assms
proof (induction as arbitrary: h)
  case Nil
  then show ?case by simp
next
  case (Cons a as)
  from Cons.prems(1) obtain st h1 r where
    c: "p7_tophits_CreateNextHit (fst a) (snd a) h = Some (st, h1, r)"
    and rest: "appends as h1 = Some h'"
    by (auto split: option.splits)
  from CreateNextHit_flag [OF c] Cons.prems(2) have "is_sorted h1 \<longleftrightarrow> N h1 < 2"
    by (cases "st = eslOK") auto
  with Cons.IH [OF rest] show ?case by simp
qed

lemma Create_fresh:
  "p7_tophits_Create a0 a1 a2 = Some h \<Longrightarrow> is_sorted h \<and> N h = 0"
  by (auto simp add: p7_tophits_Create_def split: if_splits alloc.splits)

text \<open>
  C9. The sorted flag follows the number of records across appends. A list as
  \<^verbatim>\<open>p7_tophits_Create\<close> returns it is empty and flagged sorted; after any run of
  appends to it (whether or not some of them fail for lack of memory) the list is flagged
  sorted exactly when it holds at most one record; and on any list whatever, an append
  that succeeds and leaves two or more records adds one record and leaves the flag false.
\<close>

theorem sorted_flag_tracks_appends:
  assumes "p7_tophits_Create a0 a1 a2 = Some h0" and "appends as h0 = Some h"
  shows "is_sorted h0 \<and> N h0 = 0 \<and> (is_sorted h \<longleftrightarrow> N h \<le> 1) \<and>
         (\<forall>b1 b2 g g' r. p7_tophits_CreateNextHit b1 b2 g = Some (eslOK, g', r) \<and> 2 \<le> N g'
             \<longrightarrow> N g' = N g + 1 \<and> \<not> is_sorted g')"
proof -
  from Create_fresh [OF assms(1)] have f: "is_sorted h0 \<and> N h0 = 0" .
  then have "is_sorted h0 \<longleftrightarrow> N h0 < 2" by simp
  from appends_flag [OF assms(2) this] have "is_sorted h \<longleftrightarrow> N h \<le> 1" by auto
  moreover have "\<forall>b1 b2 g g' r. p7_tophits_CreateNextHit b1 b2 g = Some (eslOK, g', r) \<and> 2 \<le> N g'
             \<longrightarrow> N g' = N g + 1 \<and> \<not> is_sorted g'"
    using CreateNextHit_flag by fastforce
  ultimately show ?thesis using f by blast
qed

theorem sorted_flag_tracks_appends_witness:
  "p7_tophits_Create True (Mem 10 junk_addr) (Mem 100 junk_hit) = Some fresh_list \<and>
   appends [(NoMem, NoMem), (NoMem, NoMem)] fresh_list = Some two_list \<and>
   is_sorted fresh_list \<and> N fresh_list = 0 \<and> N two_list = 2 \<and> \<not> is_sorted two_list"
proof -
  have a: "p7_tophits_Create True (Mem 10 junk_addr) (Mem 100 junk_hit) = Some fresh_list"
    by (simp add: p7_tophits_Create_def fresh_list_def default_nalloc_def)
  have b: "appends [(NoMem, NoMem), (NoMem, NoMem)] fresh_list = Some two_list"
    by code_simp
  have c: "N two_list = 2" by (simp add: two_list_def)
  from sorted_flag_tracks_appends [OF a b] a b c show ?thesis by simp
qed

text \<open>
  C6, as the code has it. When \<^verbatim>\<open>p7_tophits_Grow\<close> has to grow the list and one of its
  two reallocations fails, it returns \<^verbatim>\<open>eslEMEM\<close> and the data of the list are unchanged:
  the record count, the recorded capacity, the reported count, the sorted flag, the arena
  (its address and every record) and every View entry. If the first reallocation is the
  one that fails, the structure is unchanged altogether. If the second one fails, the View
  buffer has already been replaced by the larger reallocated one.
\<close>

theorem grow_failure_keeps_data:
  assumes "\<not> N h < Nalloc h" and "a1 = NoMem \<or> a2 = NoMem"
  shows "\<exists>h'. p7_tophits_Grow a1 a2 h = Some (eslEMEM, h') \<and>
           N h' = N h \<and> Nalloc h' = Nalloc h \<and> th_nreported h' = th_nreported h \<and>
           is_sorted h' = is_sorted h \<and> unsrt h' = unsrt h \<and> unsrt_base h' = unsrt_base h \<and>
           (\<forall>i. i < length (hit h) \<and> i < nat (Nalloc h * 2) \<longrightarrow> hit h' ! i = hit h ! i) \<and>
           (a1 = NoMem \<longrightarrow> h' = h)"
proof (cases a1)
  case NoMem
  with assms(1) show ?thesis by (simp add: p7_tophits_Grow_def)
next
  case (Mem bh jh)
  with assms(2) have "a2 = NoMem" by simp
  with Mem assms(1) show ?thesis
    by (simp add: p7_tophits_Grow_def Let_def realloc_cells_def nth_append)
qed

theorem grow_failure_keeps_data_witness:
  "\<not> N list_r < Nalloc list_r \<and>
   (\<exists>h'. p7_tophits_Grow (Mem 31 junk_addr) NoMem list_r = Some (eslEMEM, h') \<and>
      N h' = N list_r \<and> Nalloc h' = Nalloc list_r \<and> unsrt h' = unsrt list_r \<and>
      hit h' ! 0 = hit list_r ! 0)"
proof -
  have a: "\<not> N list_r < Nalloc list_r" by (simp add: list_r_def)
  have b: "0 < length (hit list_r) \<and> 0 < nat (Nalloc list_r * 2)" by (simp add: list_r_def)
  from grow_failure_keeps_data [of list_r "Mem 31 junk_addr" NoMem, OF a] a b
  show ?thesis by auto
qed

text \<open>
  C6, as stated, fails: on a full one-record list whose View buffer is reallocated (to
  address 31, two cells) and whose arena reallocation then fails, the call returns
  \<^verbatim>\<open>eslEMEM\<close> with the View pointer and the View buffer changed.
\<close>

theorem grow_partial_counterexample:
  "p7_tophits_Grow (Mem 31 junk_addr) NoMem list_r
     = Some (eslEMEM, list_r\<lparr>hit := [300, 0], hit_base := 31\<rparr>) \<and>
   list_r\<lparr>hit := [300, 0], hit_base := 31\<rparr> \<noteq> list_r"
  by code_simp

section \<open>The order \<^verbatim>\<open>p7_tophits_Sort\<close> establishes\<close>

lemma view_cmp_le: "view_cmp h p q \<le> 0 \<longleftrightarrow>
    sortkey (unsrt h ! slot h q) \<le> sortkey (unsrt h ! slot h p)"
  by (simp add: view_cmp_def hit_sorter_def)

lemma view_cmp_same_arena:
  "unsrt h' = unsrt h \<Longrightarrow> unsrt_base h' = unsrt_base h \<Longrightarrow> view_cmp h' = view_cmp h"
  by (intro ext) (simp add: view_cmp_def slot_def)

lemma view_cmp_consistent: "cmp_consistent (view_cmp h) S"
  by (auto simp add: cmp_consistent_def view_cmp_def hit_sorter_def)

lemma arena_addrs_in_arena:
  assumes "nat (N h) \<le> length (unsrt h)" and "p \<in> set (arena_addrs h)"
  shows "in_arena h p"
  using assms by (auto simp add: arena_addrs_def in_arena_def)

lemma descending_from_sorted:
  assumes t: "take (nat (N h)) (hit h) = xs"
    and l: "length xs = nat (N h)"
    and a: "\<forall>p\<in>set xs. in_arena h p"
    and s: "sorted_wrt (\<lambda>p q. view_cmp h p q \<le> 0) xs"
  shows "view_descending h"
  unfolding view_descending_def
proof (intro allI impI)
  fix i j
  assume ij: "i < j \<and> j < nat (N h)"
  then have i: "hit h ! i = xs ! i" and j: "hit h ! j = xs ! j"
    using t by (metis nth_take order_less_trans)+
  from ij l have mi: "xs ! i \<in> set xs" and mj: "xs ! j \<in> set xs" by auto
  from s ij l have "view_cmp h (xs ! i) (xs ! j) \<le> 0"
    by (simp add: sorted_wrt_iff_nth_less)
  then have "sortkey (unsrt h ! slot h (xs ! j)) \<le> sortkey (unsrt h ! slot h (xs ! i))"
    by (simp add: view_cmp_le)
  with a mi mj i j
  show "\<exists>ri rj. deref h (hit h ! i) = Some ri \<and> deref h (hit h ! j) = Some rj \<and>
                 sortkey rj \<le> sortkey ri"
    by (simp add: deref_def)
qed

lemma Sort_result:
  assumes q: "qsort_contract qs" and inv: "tophits_inv h"
  shows "\<exists>h'. p7_tophits_Sort qs h = Some (eslOK, h') \<and> is_sorted h' \<and>
           h'\<lparr>hit := [], is_sorted := True\<rparr> = h\<lparr>hit := [], is_sorted := True\<rparr> \<and>
           length (hit h') = length (hit h) \<and>
           view_valid h' \<and> view_descending h'"
proof (cases "is_sorted h")
  case True
  with inv show ?thesis by (simp add: p7_tophits_Sort_def tophits_inv_def)
next
  case False
  define n where "n = nat (N h)"
  define v where "v = arena_addrs h"
  from inv have b: "n \<le> length (hit h)" "n \<le> length (unsrt h)"
    by (auto simp add: tophits_inv_def buffers_ok_def n_def)
  have lv: "length v = n" by (simp add: v_def arena_addrs_def n_def)
  show ?thesis
  proof (cases "N h > 1")
    case True
    define w where "w = qs (view_cmp h) v"
    define h' where "h' = h\<lparr>hit := w @ drop n (hit h), is_sorted := True\<rparr>"
    from q have mw: "mset w = mset v"
      and sw: "sorted_wrt (\<lambda>a b. view_cmp h a b \<le> 0) w"
      using view_cmp_consistent [of h "set v"] by (auto simp add: qsort_contract_def w_def)
    from mw have lw: "length w = n" using lv by (metis size_mset)
    from mw have setw: "set w = set v" by (metis set_mset_mset)
    have s: "p7_tophits_Sort qs h = Some (eslOK, h')"
      using False True b
      by (simp add: Sort_unsorted h'_def w_def v_def arena_addrs_def n_def)
    have tk: "take (nat (N h')) (hit h') = w" using lw by (simp add: h'_def n_def)
    have ar: "\<forall>p\<in>set w. in_arena h' p"
      using setw arena_addrs_in_arena [of h] b
      by (simp add: h'_def v_def n_def in_arena_def)
    have vv: "view_valid h'"
      using tk mw b lw by (simp add: view_valid_def) (simp add: h'_def v_def arena_addrs_def n_def)
    have "view_cmp h' = view_cmp h" by (rule view_cmp_same_arena) (simp_all add: h'_def)
    with sw have "sorted_wrt (\<lambda>a b. view_cmp h' a b \<le> 0) w" by simp
    with tk ar lw have vd: "view_descending h'"
      by (intro descending_from_sorted [where xs = w]) (simp_all add: h'_def n_def)
    from s vv vd b lw show ?thesis by (auto simp add: h'_def)
  next
    case small: False
    define h' where "h' = h\<lparr>hit := v @ drop n (hit h), is_sorted := True\<rparr>"
    have s: "p7_tophits_Sort qs h = Some (eslOK, h')"
      using False small b
      by (simp add: Sort_unsorted h'_def v_def arena_addrs_def n_def)
    have vv: "view_valid h'"
      using b lv by (simp add: view_valid_def) (simp add: h'_def v_def arena_addrs_def n_def)
    have vd: "view_descending h'"
      using small by (auto simp add: view_descending_def h'_def)
    from s vv vd b lv show ?thesis by (auto simp add: h'_def)
  qed
qed

lemma mset_insert_by: "mset (insert_by cmp x xs) = add_mset x (mset xs)"
  by (induction xs) auto

lemma mset_insertion_qsort: "mset (insertion_qsort cmp xs) = mset xs"
  by (induction xs) (simp_all add: insertion_qsort_def mset_insert_by)

lemma set_insert_by: "set (insert_by cmp x xs) = insert x (set xs)"
  by (metis mset_insert_by set_mset_add_mset_insert set_mset_mset)

lemma sorted_insert_by:
  assumes c: "cmp_consistent cmp S" and x: "x \<in> S"
  shows "set xs \<subseteq> S \<Longrightarrow> sorted_wrt (\<lambda>a b. cmp a b \<le> 0) xs
           \<Longrightarrow> sorted_wrt (\<lambda>a b. cmp a b \<le> 0) (insert_by cmp x xs)"
proof (induction xs)
  case Nil
  then show ?case by simp
next
  case (Cons y ys)
  from Cons.prems have y: "y \<in> S" and ys: "set ys \<subseteq> S"
    and yle: "\<forall>z\<in>set ys. cmp y z \<le> 0" and sys: "sorted_wrt (\<lambda>a b. cmp a b \<le> 0) ys"
    by auto
  show ?case
  proof (cases "cmp x y \<le> 0")
    case True
    have "\<forall>z\<in>set ys. cmp x z \<le> 0"
    proof
      fix z assume z: "z \<in> set ys"
      with ys have "z \<in> S" by auto
      moreover from yle z have "cmp y z \<le> 0" by simp
      ultimately show "cmp x z \<le> 0"
        using c x y True unfolding cmp_consistent_def by blast
    qed
    with True Cons.prems(2) show ?thesis by simp
  next
    case False
    then have "0 < cmp x y" by simp
    with c x y have "cmp y x < 0" unfolding cmp_consistent_def by blast
    with False yle Cons.IH [OF ys sys] show ?thesis
      by (auto simp add: set_insert_by)
  qed
qed

lemma sorted_insertion_qsort:
  assumes "cmp_consistent cmp (set xs)"
  shows "sorted_wrt (\<lambda>a b. cmp a b \<le> 0) (insertion_qsort cmp xs)"
proof -
  have "set ys \<subseteq> set xs \<Longrightarrow> sorted_wrt (\<lambda>a b. cmp a b \<le> 0) (insertion_qsort cmp ys)" for ys
  proof (induction ys)
    case Nil
    then show ?case by (simp add: insertion_qsort_def)
  next
    case (Cons y ys)
    then have "sorted_wrt (\<lambda>a b. cmp a b \<le> 0) (insertion_qsort cmp ys)" by simp
    moreover have "set (insertion_qsort cmp ys) \<subseteq> set xs"
      using Cons.prems by (metis mset_insertion_qsort set_mset_mset set_subset_Cons subset_trans)
    moreover have "y \<in> set xs" using Cons.prems by simp
    ultimately have "sorted_wrt (\<lambda>a b. cmp a b \<le> 0) (insert_by cmp y (insertion_qsort cmp ys))"
      using sorted_insert_by [OF assms] by blast
    then show ?case by (simp add: insertion_qsort_def)
  qed
  then show ?thesis by simp
qed

lemma insertion_qsort_contract: "qsort_contract insertion_qsort"
  by (simp add: qsort_contract_def mset_insertion_qsort sorted_insertion_qsort)

lemma inv_list_abc: "tophits_inv list_abc"
  by (simp add: tophits_inv_def buffers_ok_def list_abc_def)

text \<open>
  What \<^verbatim>\<open>p7_tophits_Sort\<close> does on a list that satisfies the list invariant: it
  returns \<^verbatim>\<open>eslOK\<close>, leaves the records where they are, and afterwards the View is a
  rearrangement of the addresses of all \<open>N\<close> records (\<open>view_valid\<close>) along which the
  sort key never increases (\<open>view_descending\<close>), for every \<^verbatim>\<open>qsort\<close> that meets the
  C library's contract. Of a list that is not flagged sorted the invariant asks only that
  the buffers hold the records, and the call builds the order. On a list that is flagged
  sorted the call returns at once, and the order is what the invariant says of such a
  list; whether the lists the other operations produce satisfy it is another matter, taken
  up at the end of this theory.
\<close>

theorem sort_orders_view:
  assumes "qsort_contract qs" and "tophits_inv h"
  shows "\<exists>h'. p7_tophits_Sort qs h = Some (eslOK, h') \<and>
           N h' = N h \<and> unsrt h' = unsrt h \<and> unsrt_base h' = unsrt_base h \<and>
           is_sorted h' \<and> view_valid h' \<and> view_descending h'"
proof -
  from Sort_result [OF assms] obtain h' where
    s: "p7_tophits_Sort qs h = Some (eslOK, h')" "is_sorted h'" "view_valid h'"
       "view_descending h'"
    and e: "h'\<lparr>hit := [], is_sorted := True\<rparr> = h\<lparr>hit := [], is_sorted := True\<rparr>"
    by blast
  from e have "N (h'\<lparr>hit := [], is_sorted := True\<rparr>) = N (h\<lparr>hit := [], is_sorted := True\<rparr>)"
    "unsrt (h'\<lparr>hit := [], is_sorted := True\<rparr>) = unsrt (h\<lparr>hit := [], is_sorted := True\<rparr>)"
    "unsrt_base (h'\<lparr>hit := [], is_sorted := True\<rparr>)
       = unsrt_base (h\<lparr>hit := [], is_sorted := True\<rparr>)"
    by simp_all
  then have "N h' = N h" "unsrt h' = unsrt h" "unsrt_base h' = unsrt_base h" by simp_all
  with s show ?thesis by blast
qed

theorem sort_orders_view_witness:
  "qsort_contract (insertion_qsort :: (addr \<Rightarrow> addr \<Rightarrow> int) \<Rightarrow> addr list \<Rightarrow> addr list) \<and>
   tophits_inv list_abc \<and>
   p7_tophits_Sort insertion_qsort list_abc = Some (eslOK, list_abc_sorted) \<and>
   view_valid list_abc_sorted \<and> view_descending list_abc_sorted"
  using sort_orders_view [OF insertion_qsort_contract inv_list_abc]
    insertion_qsort_contract inv_list_abc Sort_list_abc
  by auto

section \<open>Thresholding: the two passes in closed form\<close>

lemma flag_target_visit:
  "flag_target tr pli = visit (\<lambda>r. Some (mark_target tr pli r))
      (\<lambda>r. if tr pli (score r) (pvalue r) then 1 else 0)"
  by (intro ext)
     (auto simp add: flag_target_def visit_def mark_target_def poke_def deref_def
       split: option.splits)

lemma flag_domains_visit:
  "flag_domains dr pli = visit (mark_domains dr pli) (\<lambda>r. 0)"
  by (intro ext)
     (auto simp add: flag_domains_def visit_def mark_domains_def poke_def deref_def
       split: option.splits)

lemma view_valid_distinct:
  assumes "view_valid th"
  shows "distinct (take (nat (N th)) (hit th))"
proof -
  have "distinct (arena_addrs th)"
    by (simp add: arena_addrs_def distinct_map inj_on_def)
  with assms show ?thesis by (metis view_valid_def mset_eq_imp_distinct_iff)
qed

lemma view_valid_entry:
  assumes "view_valid th" and "i < nat (N th)"
  shows "in_arena th (hit th ! i) \<and> slot th (hit th ! i) < nat (N th) \<and>
         hit th ! i = unsrt_base th + int (slot th (hit th ! i))"
proof -
  from assms have "hit th ! i \<in> set (take (nat (N th)) (hit th))"
    by (metis view_valid_def in_set_conv_nth length_take min.absorb2 nth_take)
  with assms(1) have "hit th ! i \<in> set (arena_addrs th)"
    by (metis view_valid_def set_mset_mset)
  with assms(1) show ?thesis
    by (auto simp add: arena_addrs_def in_arena_def slot_def view_valid_def)
qed


lemma visit_loop:
  assumes vv: "view_valid th"
    and g: "\<forall>r\<in>set (take (nat (N th)) (unsrt th)). g r \<noteq> None"
  shows "m \<le> nat (N th) \<Longrightarrow>
     for_loop [0..<m] (visit g c) th =
       Some (th\<lparr>unsrt := map (\<lambda>k. if unsrt_base th + int k \<in> set (take m (hit th))
                                   then the (g (unsrt th ! k)) else unsrt th ! k)
                              [0..<length (unsrt th)],
                th_nreported := th_nreported th
                   + sum_list (map (\<lambda>p. c (unsrt th ! slot th p)) (take m (hit th)))\<rparr>)"
proof (induction m)
  case 0
  then show ?case by (simp add: map_nth)
next
  case (Suc m)
  define u where "u = unsrt th"
  define n where "n = nat (N th)"
  define p where "p = hit th ! m"
  define k where "k = slot th p"
  define f where "f = (\<lambda>m k. if unsrt_base th + int k \<in> set (take m (hit th))
                                   then the (g (u ! k)) else u ! k)"
  define S where "S = th\<lparr>unsrt := map (f m) [0..<length u],
                th_nreported := th_nreported th
                   + sum_list (map (\<lambda>p. c (u ! slot th p)) (take m (hit th)))\<rparr>"
  from Suc.prems have mn: "m < n" by (simp add: n_def)
  from vv have nh: "n \<le> length (hit th)" and nu: "n \<le> length u"
    by (simp_all add: view_valid_def n_def u_def)
  from view_valid_entry [OF vv, of m] mn
  have pin: "in_arena th p" and kn: "k < n" and pk: "p = unsrt_base th + int k"
    by (simp_all add: p_def k_def n_def)
  have tk: "take (Suc m) (hit th) = take m (hit th) @ [p]"
    using mn nh by (simp add: take_Suc_conv_app_nth p_def)
  have "distinct (take (Suc m) (take n (hit th)))"
    using view_valid_distinct [OF vv] unfolding n_def by (rule distinct_take)
  moreover have "min (Suc m) n = Suc m" using mn by simp
  ultimately have "distinct (take (Suc m) (hit th))" by simp
  then have notin: "p \<notin> set (take m (hit th))" by (simp add: tk)
  have loop: "for_loop [0..<m] (visit g c) th = Some S"
    using Suc S_def f_def u_def by simp
  have va: "view_at S m = Some p"
    using mn nh by (simp add: view_at_def S_def p_def)
  have kl: "k < length u" using kn nu by simp
  have sl: "slot S p = k" by (simp add: slot_def S_def k_def)
  have cur: "unsrt S ! k = u ! k"
    using kl notin pk by (simp add: S_def f_def)
  have de: "deref S p = Some (u ! k)"
    using pin cur sl by (simp add: deref_def in_arena_def S_def u_def)
  have "u ! k \<in> set (take n u)"
    using kn nu by (metis in_set_conv_nth length_take min.absorb2 nth_take)
  with g obtain r' where gr: "g (u ! k) = Some r'" by (auto simp add: u_def n_def)
  have upd: "(map (f m) [0..<length u])[k := r'] = map (f (Suc m)) [0..<length u]"
  proof (rule nth_equalityI)
    show "length ((map (f m) [0..<length u])[k := r']) = length (map (f (Suc m)) [0..<length u])"
      by simp
  next
    fix j
    assume "j < length ((map (f m) [0..<length u])[k := r'])"
    then have jl: "j < length u" by simp
    show "(map (f m) [0..<length u])[k := r'] ! j = map (f (Suc m)) [0..<length u] ! j"
    proof (cases "j = k")
      case True
      with jl gr show ?thesis by (simp add: f_def tk pk)
    next
      case False
      then have "unsrt_base th + int j \<noteq> p" by (simp add: pk)
      with jl False show ?thesis by (simp add: f_def tk)
    qed
  qed
  have "visit g c m S = Some (th\<lparr>unsrt := map (f (Suc m)) [0..<length u],
                th_nreported := th_nreported th
                   + sum_list (map (\<lambda>p. c (u ! slot th p)) (take (Suc m) (hit th)))\<rparr>)"
    using va de gr sl upd by (simp add: visit_def) (simp add: S_def tk k_def)
  with loop show ?case
    by (simp add: for_loop_upt_Suc f_def u_def del: upt_Suc)
qed

lemma arena_addrs_mem:
  "p \<in> set (arena_addrs th) \<longleftrightarrow> unsrt_base th \<le> p \<and> p < unsrt_base th + int (nat (N th))"
proof
  assume "p \<in> set (arena_addrs th)"
  then show "unsrt_base th \<le> p \<and> p < unsrt_base th + int (nat (N th))"
    by (auto simp add: arena_addrs_def)
next
  assume b: "unsrt_base th \<le> p \<and> p < unsrt_base th + int (nat (N th))"
  then have "nat (p - unsrt_base th) < nat (N th)" by linarith
  moreover from b have "p = unsrt_base th + int (nat (p - unsrt_base th))" by simp
  ultimately have "p \<in> (\<lambda>i. unsrt_base th + int i) ` {0..<nat (N th)}"
    by (intro image_eqI [where x = "nat (p - unsrt_base th)"]) simp_all
  then show "p \<in> set (arena_addrs th)" by (simp add: arena_addrs_def)
qed

lemma visit_all:
  assumes vv: "view_valid th"
    and g: "\<forall>r\<in>set (take (nat (N th)) (unsrt th)). g r \<noteq> None"
  shows "for_loop [0..<nat (N th)] (visit g c) th =
       Some (th\<lparr>unsrt := map (\<lambda>r. the (g r)) (take (nat (N th)) (unsrt th))
                            @ drop (nat (N th)) (unsrt th),
                th_nreported := th_nreported th
                   + sum_list (map c (take (nat (N th)) (unsrt th)))\<rparr>)"
proof -
  define n where "n = nat (N th)"
  define u where "u = unsrt th"
  define V where "V = take n (hit th)"
  from vv have nu: "n \<le> length u" and mv: "mset V = mset (arena_addrs th)"
    by (simp_all add: view_valid_def n_def u_def V_def)
  from mv have sv: "set V = set (arena_addrs th)" by (metis set_mset_mset)
  have a: "map (\<lambda>k. if unsrt_base th + int k \<in> set V then the (g (u ! k)) else u ! k)
              [0..<length u]
           = map (\<lambda>r. the (g r)) (take n u) @ drop n u"
  proof (rule nth_equalityI)
    show "length (map (\<lambda>k. if unsrt_base th + int k \<in> set V then the (g (u ! k)) else u ! k)
              [0..<length u]) = length (map (\<lambda>r. the (g r)) (take n u) @ drop n u)"
      using nu by simp
  next
    fix j
    assume "j < length (map (\<lambda>k. if unsrt_base th + int k \<in> set V then the (g (u ! k))
              else u ! k) [0..<length u])"
    then have jl: "j < length u" by simp
    have m: "unsrt_base th + int j \<in> set V \<longleftrightarrow> j < n"
      by (auto simp add: sv arena_addrs_mem n_def)
    show "map (\<lambda>k. if unsrt_base th + int k \<in> set V then the (g (u ! k)) else u ! k)
              [0..<length u] ! j = (map (\<lambda>r. the (g r)) (take n u) @ drop n u) ! j"
      using jl nu m by (simp add: nth_append)
  qed
  have "sum_list (map (\<lambda>p. c (u ! slot th p)) V)
          = sum_mset (image_mset (\<lambda>p. c (u ! slot th p)) (mset V))"
    by (metis mset_map sum_mset_sum_list)
  also have "\<dots> = sum_list (map (\<lambda>p. c (u ! slot th p)) (arena_addrs th))"
    by (metis mv mset_map sum_mset_sum_list)
  also have "map (\<lambda>p. c (u ! slot th p)) (arena_addrs th) = map c (take n u)"
    using nu by (intro nth_equalityI) (simp_all add: arena_addrs_def slot_def n_def)
  finally have b: "sum_list (map (\<lambda>p. c (u ! slot th p)) V) = sum_list (map c (take n u))" .
  have "for_loop [0..<n] (visit g c) th =
       Some (th\<lparr>unsrt := map (\<lambda>k. if unsrt_base th + int k \<in> set V
                                   then the (g (u ! k)) else u ! k) [0..<length u],
                th_nreported := th_nreported th
                   + sum_list (map (\<lambda>p. c (u ! slot th p)) V)\<rparr>)"
    unfolding n_def u_def V_def by (rule visit_loop [OF vv g]) simp
  then show ?thesis unfolding a b unfolding n_def u_def .
qed

lemma flag_domain_loop:
  assumes "dcl r = Some ds"
  shows "m \<le> length ds \<Longrightarrow>
    for_loop [0..<m] (flag_domain dr pli) r = Some (mark_upto dr pli m ds r)"
proof (induction m)
  case 0
  with assms show ?case by (simp add: mark_upto_def map_nth)
next
  case (Suc m)
  then have ml: "m < length ds" by simp
  have upd: "(map (\<lambda>d. if d < m \<and> selects dr pli (best_domain r) ds d
                 then (ds ! d)\<lparr>dom_is_reported := True\<rparr> else ds ! d) [0..<length ds])
               [m := (ds ! m)\<lparr>dom_is_reported := True\<rparr>]
             = map (\<lambda>d. if d < Suc m \<and> (d = m \<or> selects dr pli (best_domain r) ds d)
                 then (ds ! d)\<lparr>dom_is_reported := True\<rparr> else ds ! d) [0..<length ds]"
    using ml by (intro nth_equalityI) (auto simp add: nth_list_update)
  have same: "map (\<lambda>d. if d < m \<and> selects dr pli (best_domain r) ds d
                 then (ds ! d)\<lparr>dom_is_reported := True\<rparr> else ds ! d) [0..<length ds]
             = map (\<lambda>d. if d < Suc m \<and> selects dr pli (best_domain r) ds d
                 then (ds ! d)\<lparr>dom_is_reported := True\<rparr> else ds ! d) [0..<length ds]"
    if "\<not> selects dr pli (best_domain r) ds m"
    using that by (intro nth_equalityI) (auto simp add: less_Suc_eq)
  have sel: "map (\<lambda>d. if d < Suc m \<and> (d = m \<or> selects dr pli (best_domain r) ds d)
                 then (ds ! d)\<lparr>dom_is_reported := True\<rparr> else ds ! d) [0..<length ds]
             = map (\<lambda>d. if d < Suc m \<and> selects dr pli (best_domain r) ds d
                 then (ds ! d)\<lparr>dom_is_reported := True\<rparr> else ds ! d) [0..<length ds]"
    if "selects dr pli (best_domain r) ds m"
    using that by (intro nth_equalityI) auto
  have "flag_domain dr pli m (mark_upto dr pli m ds r) = Some (mark_upto dr pli (Suc m) ds r)"
  proof (cases "selects dr pli (best_domain r) ds m")
    case True
    then show ?thesis
      using ml upd sel [OF True]
      by (simp add: flag_domain_def mark_upto_def selects_def)
  next
    case False
    then show ?thesis
      using ml same [OF False]
      by (simp add: flag_domain_def mark_upto_def selects_def)
  qed
  with Suc ml show ?case by (simp add: for_loop_upt_Suc del: upt_Suc)
qed

lemma mark_domains_closed:
  assumes "domains_ok r"
  shows "mark_domains dr pli r = Some (if is_reported r then mark_closed dr pli r else r)"
proof (cases "dcl r")
  case None
  with assms show ?thesis by (simp add: mark_domains_def mark_closed_def domains_ok_def)
next
  case (Some ds)
  with assms have "nat (ndom r) \<le> length ds" by (simp add: domains_ok_def)
  from flag_domain_loop [OF Some this, where dr = dr and pli = pli] Some show ?thesis
    by (simp add: mark_domains_def mark_closed_def)
qed

lemma domains_ok_mark_target: "domains_ok (mark_target tr pli r) = domains_ok r"
  by (simp add: mark_target_def domains_ok_def split: option.splits)

lemma Threshold_result:
  assumes vv: "view_valid th"
    and ok: "\<forall>r\<in>set (take (nat (N th)) (unsrt th)). domains_ok r"
  shows "p7_tophits_Threshold tr dr th pli =
     Some (eslOK,
       th\<lparr>unsrt := map (classify tr dr pli (pli_after tr pli th)) (take (nat (N th)) (unsrt th))
                     @ drop (nat (N th)) (unsrt th),
          th_nreported := count_targets tr pli th\<rparr>,
       pli_after tr pli th)"
proof -
  define n where "n = nat (N th)"
  define u where "u = unsrt th"
  define th0 where "th0 = th\<lparr>th_nreported := 0\<rparr>"
  define th1 where "th1 = th\<lparr>unsrt := map (mark_target tr pli) (take n u) @ drop n u,
                             th_nreported := count_targets tr pli th\<rparr>"
  define pli1 where "pli1 = pli_after tr pli th"
  from vv have nu: "n \<le> length u" by (simp add: view_valid_def n_def u_def)
  have vv0: "view_valid th0"
    using vv by (simp add: th0_def view_valid_def arena_addrs_def)
  have "for_loop [0..<nat (N th0)] (visit (\<lambda>r. Some (mark_target tr pli r))
            (\<lambda>r. if tr pli (score r) (pvalue r) then 1 else 0)) th0
        = Some (th0\<lparr>unsrt := map (\<lambda>r. the (Some (mark_target tr pli r)))
                                (take (nat (N th0)) (unsrt th0))
                              @ drop (nat (N th0)) (unsrt th0),
                   th_nreported := th_nreported th0
                     + sum_list (map (\<lambda>r. if tr pli (score r) (pvalue r) then 1 else 0)
                          (take (nat (N th0)) (unsrt th0)))\<rparr>)"
    by (rule visit_all [OF vv0]) simp
  then have p1: "for_loop [0..<n] (flag_target tr pli) th0 = Some th1"
    by (simp add: flag_target_visit th0_def th1_def n_def u_def count_targets_def)
  have vv1: "view_valid th1"
    using vv nu by (simp add: th1_def view_valid_def arena_addrs_def n_def u_def)
  have n1: "nat (N th1) = n" by (simp add: th1_def n_def)
  have u1: "take n (unsrt th1) = map (mark_target tr pli) (take n u)"
    "drop n (unsrt th1) = drop n u"
    using nu by (simp_all add: th1_def)
  have okn: "\<forall>r\<in>set (take n u). domains_ok r" using ok by (simp add: n_def u_def)
  have "\<forall>r\<in>set (take n (unsrt th1)). mark_domains dr pli1 r \<noteq> None"
    unfolding u1 using okn by (simp add: mark_domains_closed domains_ok_mark_target)
  then have ok1: "\<forall>r\<in>set (take (nat (N th1)) (unsrt th1)). mark_domains dr pli1 r \<noteq> None"
    by (simp add: n1)
  have v2: "for_loop [0..<nat (N th1)] (visit (mark_domains dr pli1) (\<lambda>r. 0)) th1
        = Some (th1\<lparr>unsrt := map (\<lambda>r. the (mark_domains dr pli1 r))
                                (take (nat (N th1)) (unsrt th1))
                              @ drop (nat (N th1)) (unsrt th1),
                   th_nreported := th_nreported th1
                     + sum_list (map (\<lambda>r. 0) (take (nat (N th1)) (unsrt th1)))\<rparr>)"
    by (rule visit_all [OF vv1 ok1])
  have A: "map (\<lambda>r. the (mark_domains dr pli1 r)) (take (nat (N th1)) (unsrt th1))
      = map (classify tr dr pli pli1) (take n u)"
    unfolding n1 u1 using okn
    by (simp add: classify_def mark_domains_closed domains_ok_mark_target)
  have B: "drop (nat (N th1)) (unsrt th1) = drop n u" unfolding n1 u1 ..
  have Z: "sum_list (map (\<lambda>r. 0) (take (nat (N th1)) (unsrt th1))) = (0::int)" by simp
  from v2 have p2: "for_loop [0..<n] (flag_domains dr pli1) th1
        = Some (th\<lparr>unsrt := map (classify tr dr pli pli1) (take n u) @ drop n u,
                  th_nreported := count_targets tr pli th\<rparr>)"
    unfolding A B Z by (simp add: flag_domains_visit n1) (simp add: th1_def)
  have c: "th_nreported th1 = count_targets tr pli th" by (simp add: th1_def)
  have pl: "(if domZ_setby pli = p7_ZSETBY_NTARGETS
             then pli\<lparr>domZ := real_of_int (th_nreported th1)\<rparr> else pli) = pli1"
    by (simp add: pli1_def pli_after_def c)
  show ?thesis
    unfolding p7_tophits_Threshold_def Let_def
    unfolding th0_def [symmetric] n_def [symmetric] u_def [symmetric] pli1_def [symmetric]
    unfolding p1 option.case n1 pl p2 ..
qed

lemma mark_target_fields [simp]:
  "ndom (mark_target tr pli r) = ndom r"
  "best_domain (mark_target tr pli r) = best_domain r"
  "dcl (mark_target tr pli r) = dcl r"
  "nreported (mark_target tr pli r) = nreported r"
  "score (mark_target tr pli r) = score r"
  "pvalue (mark_target tr pli r) = pvalue r"
  "is_reported (mark_target tr pli r) \<longleftrightarrow> is_reported r \<or> tr pli (score r) (pvalue r)"
  by (simp_all add: mark_target_def)

lemma mark_closed_fields [simp]:
  "ndom (mark_closed dr pli r) = ndom r"
  "best_domain (mark_closed dr pli r) = best_domain r"
  "score (mark_closed dr pli r) = score r"
  "pvalue (mark_closed dr pli r) = pvalue r"
  "is_reported (mark_closed dr pli r) = is_reported r"
  by (simp_all add: mark_closed_def mark_upto_def split: option.splits)

lemma classify_fields [simp]:
  "ndom (classify tr dr pli pli1 r) = ndom r"
  "best_domain (classify tr dr pli pli1 r) = best_domain r"
  "score (classify tr dr pli pli1 r) = score r"
  "pvalue (classify tr dr pli pli1 r) = pvalue r"
  "is_reported (classify tr dr pli pli1 r) \<longleftrightarrow> is_reported r \<or> tr pli (score r) (pvalue r)"
  by (simp_all add: classify_def)

lemma mark_closed_best:
  assumes "domains_ok r" and "0 \<le> best_domain r" and "best_domain r < ndom r"
  shows "\<exists>ds. dcl (mark_closed dr pli r) = Some ds \<and> nat (best_domain r) < length ds \<and>
           dom_is_reported (ds ! nat (best_domain r))"
proof (cases "dcl r")
  case None
  with assms show ?thesis by (simp add: domains_ok_def)
next
  case (Some ds)
  with assms have l: "nat (ndom r) \<le> length ds" by (simp add: domains_ok_def)
  from assms have b: "nat (best_domain r) < nat (ndom r)" by arith
  from b l have "nat (best_domain r) < length ds" by arith
  with Some b assms(2) show ?thesis
    by (simp add: mark_closed_def mark_upto_def selects_def)
qed

lemma deref_after:
  fixes f :: "P7_HIT \<Rightarrow> P7_HIT" and c :: int
  assumes vv: "view_valid th" and i: "i < nat (N th)"
    and th'_def: "th' = th\<lparr>unsrt := map f (take (nat (N th)) (unsrt th))
                                    @ drop (nat (N th)) (unsrt th),
                            th_nreported := c\<rparr>"
  shows "deref th' (hit th' ! i) = Some (f (unsrt th ! slot th (hit th ! i)))"
    and "deref th (hit th ! i) = Some (unsrt th ! slot th (hit th ! i))"
    and "unsrt th ! slot th (hit th ! i) \<in> set (take (nat (N th)) (unsrt th))"
proof -
  from vv have nu: "nat (N th) \<le> length (unsrt th)" by (simp add: view_valid_def)
  from view_valid_entry [OF vv i]
  have a: "in_arena th (hit th ! i)" and k: "slot th (hit th ! i) < nat (N th)" by simp_all
  from a nu have "in_arena th' (hit th' ! i)" by (simp add: th'_def in_arena_def)
  moreover have "slot th' (hit th' ! i) = slot th (hit th ! i)" by (simp add: th'_def slot_def)
  ultimately show "deref th' (hit th' ! i) = Some (f (unsrt th ! slot th (hit th ! i)))"
    using k nu by (simp add: deref_def) (simp add: th'_def nth_append)
  from a show "deref th (hit th ! i) = Some (unsrt th ! slot th (hit th ! i))"
    by (simp add: deref_def)
  from k nu show "unsrt th ! slot th (hit th ! i) \<in> set (take (nat (N th)) (unsrt th))"
    by (metis in_set_conv_nth length_take min.absorb2 nth_take)
qed

lemma count_flags:
  assumes "nd \<le> length ds"
  shows "length (filter dom_is_reported
            (take nd (map (\<lambda>d. if d < nd \<and> S d then (ds ! d)\<lparr>dom_is_reported := True\<rparr>
                                else ds ! d) [0..<length ds])))
         = length (filter (\<lambda>d. S d \<or> dom_is_reported (ds ! d)) [0..<nd])"
proof -
  have "take nd (map (\<lambda>d. if d < nd \<and> S d then (ds ! d)\<lparr>dom_is_reported := True\<rparr>
                                else ds ! d) [0..<length ds])
        = map (\<lambda>d. if d < nd \<and> S d then (ds ! d)\<lparr>dom_is_reported := True\<rparr> else ds ! d) [0..<nd]"
    using assms by (simp add: take_map)
  moreover have "filter (dom_is_reported \<circ> (\<lambda>d. if d < nd \<and> S d
                     then (ds ! d)\<lparr>dom_is_reported := True\<rparr> else ds ! d)) [0..<nd]
        = filter (\<lambda>d. S d \<or> dom_is_reported (ds ! d)) [0..<nd]"
    by (rule filter_cong) auto
  ultimately show ?thesis by (simp add: filter_map)
qed

lemma mark_closed_counts:
  assumes ok: "domains_ok r" and d: "dcl r = Some ds"
  shows "nreported (mark_closed dr pli r) = nreported r
           + int (length (filter (selects dr pli (best_domain r) ds) [0..<nat (ndom r)]))"
    and "n_reported_domains (mark_closed dr pli r)
           = int (length (filter (\<lambda>d. selects dr pli (best_domain r) ds d
                                        \<or> dom_is_reported (ds ! d)) [0..<nat (ndom r)]))"
    and "\<exists>ds'. dcl (mark_closed dr pli r) = Some ds' \<and> length ds' = length ds \<and>
           (\<forall>d<length ds. bitscore (ds' ! d) = bitscore (ds ! d) \<and>
              dom_pvalue (ds' ! d) = dom_pvalue (ds ! d) \<and>
              (dom_is_reported (ds' ! d) \<longleftrightarrow>
                 (d < nat (ndom r) \<and> selects dr pli (best_domain r) ds d)
                 \<or> dom_is_reported (ds ! d)))"
proof -
  from ok d have l: "nat (ndom r) \<le> length ds" by (simp add: domains_ok_def)
  show "nreported (mark_closed dr pli r) = nreported r
           + int (length (filter (selects dr pli (best_domain r) ds) [0..<nat (ndom r)]))"
    using d by (simp add: mark_closed_def mark_upto_def)
  show "n_reported_domains (mark_closed dr pli r)
           = int (length (filter (\<lambda>d. selects dr pli (best_domain r) ds d
                                        \<or> dom_is_reported (ds ! d)) [0..<nat (ndom r)]))"
    using d count_flags [OF l, of "selects dr pli (best_domain r) ds"]
    by (simp add: n_reported_domains_def mark_closed_def mark_upto_def)
  show "\<exists>ds'. dcl (mark_closed dr pli r) = Some ds' \<and> length ds' = length ds \<and>
           (\<forall>d<length ds. bitscore (ds' ! d) = bitscore (ds ! d) \<and>
              dom_pvalue (ds' ! d) = dom_pvalue (ds ! d) \<and>
              (dom_is_reported (ds' ! d) \<longleftrightarrow>
                 (d < nat (ndom r) \<and> selects dr pli (best_domain r) ds d)
                 \<or> dom_is_reported (ds ! d)))"
    using d by (auto simp add: mark_closed_def mark_upto_def)
qed

lemma domains_ok_mark_closed:
  assumes "domains_ok r"
  shows "domains_ok (mark_closed dr pli r)"
proof (cases "dcl r")
  case None
  with assms show ?thesis by (simp add: mark_closed_def)
next
  case (Some ds)
  from mark_closed_counts(3) [OF assms Some, of dr pli] assms Some show ?thesis
    by (auto simp add: domains_ok_def)
qed

lemma domains_ok_classify:
  "domains_ok r \<Longrightarrow> domains_ok (classify tr dr pli pli1 r)"
  by (simp add: classify_def domains_ok_mark_closed domains_ok_mark_target)

lemma mark_target_reported: "is_reported r \<Longrightarrow> mark_target tr pli r = r"
  by (simp add: mark_target_def)

lemma classify_twice:
  assumes ok: "domains_ok r" and fr: "fresh_hit r" and same: "tr p1 = tr pli"
    and r1_def: "r1 = classify tr dr pli p1 r"
    and r2_def: "r2 = classify tr dr p1 p1 r1"
  shows "is_reported r2 = is_reported r1"
    and "n_reported_domains r2 = n_reported_domains r1"
    and "is_reported r1 \<longrightarrow>
           nreported r1 = n_reported_domains r1 \<and> nreported r2 = 2 * n_reported_domains r2"
proof -
  from fr have nr: "\<not> is_reported r" and n0: "nreported r = 0" by (simp_all add: fresh_hit_def)
  show "is_reported r2 = is_reported r1" by (simp add: r1_def r2_def same)
  have "n_reported_domains r2 = n_reported_domains r1 \<and>
        (is_reported r1 \<longrightarrow>
           nreported r1 = n_reported_domains r1 \<and> nreported r2 = 2 * n_reported_domains r2)"
  proof (cases "tr pli (score r) (pvalue r)")
    case False
    then have "r1 = r" using nr by (simp add: r1_def classify_def mark_target_def)
    moreover then have "r2 = r" using nr False by (simp add: r2_def classify_def mark_target_def same)
    ultimately show ?thesis using nr by simp
  next
    case True
    define rt where "rt = mark_target tr pli r"
    have rt: "is_reported rt" "domains_ok rt" "nreported rt = 0" "dcl rt = dcl r"
      "ndom rt = ndom r" "best_domain rt = best_domain r"
      using True ok n0 by (simp_all add: rt_def domains_ok_mark_target)
    have r1: "r1 = mark_closed dr p1 rt" using rt(1) by (simp add: r1_def classify_def rt_def)
    then have rep1: "is_reported r1" using rt(1) by simp
    have r2: "r2 = mark_closed dr p1 r1"
      using rep1 by (simp add: r2_def classify_def mark_target_reported)
    show ?thesis
    proof (cases "dcl r")
      case None
      then have "r1 = rt" using rt by (simp add: r1 mark_closed_def)
      moreover then have "r2 = rt" using rt None by (simp add: r2 mark_closed_def)
      ultimately show ?thesis using rt None by (simp add: n_reported_domains_def)
    next
      case (Some ds)
      define nd where "nd = nat (ndom r)"
      define S where "S = selects dr p1 (best_domain r) ds"
      from Some rt have drt: "dcl rt = Some ds" by simp
      from ok Some have l: "nd \<le> length ds" by (simp add: domains_ok_def nd_def)
      from fr Some have unfl: "\<forall>d<length ds. \<not> dom_is_reported (ds ! d)"
        by (simp add: fresh_hit_def list_all_length)
      have c1: "nreported r1 = int (length (filter S [0..<nd]))"
        using mark_closed_counts(1) [OF rt(2) drt, of dr p1] rt
        by (simp add: r1 S_def nd_def)
      have "filter (\<lambda>d. S d \<or> dom_is_reported (ds ! d)) [0..<nd] = filter S [0..<nd]"
        using unfl l by (intro filter_cong) auto
      then have f1: "n_reported_domains r1 = int (length (filter S [0..<nd]))"
        using mark_closed_counts(2) [OF rt(2) drt, of dr p1] rt
        by (simp add: r1 S_def nd_def)
      from mark_closed_counts(3) [OF rt(2) drt, of dr p1] obtain ds1 where
        d1: "dcl r1 = Some ds1" and l1: "length ds1 = length ds"
        and e1: "\<forall>d<length ds. bitscore (ds1 ! d) = bitscore (ds ! d) \<and>
              dom_pvalue (ds1 ! d) = dom_pvalue (ds ! d) \<and>
              (dom_is_reported (ds1 ! d) \<longleftrightarrow> (d < nd \<and> S d) \<or> dom_is_reported (ds ! d))"
        using rt by (auto simp add: r1 S_def nd_def)
      have ok1: "domains_ok r1" using rt(2) by (simp add: r1 domains_ok_mark_closed)
      have b1: "best_domain r1 = best_domain r" "ndom r1 = ndom r" using rt by (simp_all add: r1)
      have s1: "filter (selects dr p1 (best_domain r) ds1) [0..<nd] = filter S [0..<nd]"
        using e1 l by (intro filter_cong) (auto simp add: selects_def S_def)
      have s2: "filter (\<lambda>d. selects dr p1 (best_domain r) ds1 d \<or> dom_is_reported (ds1 ! d))
                  [0..<nd] = filter S [0..<nd]"
        using e1 l unfl by (intro filter_cong) (auto simp add: selects_def S_def)
      have c2: "nreported r2 = nreported r1 + int (length (filter S [0..<nd]))"
        using mark_closed_counts(1) [OF ok1 d1, of dr p1] b1 s1 by (simp add: r2 nd_def)
      have f2: "n_reported_domains r2 = int (length (filter S [0..<nd]))"
        using mark_closed_counts(2) [OF ok1 d1, of dr p1] b1 s2 by (simp add: r2 nd_def)
      from c1 f1 c2 f2 show ?thesis by simp
    qed
  qed
  then show "n_reported_domains r2 = n_reported_domains r1"
    and "is_reported r1 \<longrightarrow>
           nreported r1 = n_reported_domains r1 \<and> nreported r2 = 2 * n_reported_domains r2"
    by simp_all
qed

lemma count_targets_again:
  assumes "tr p1 = tr pli" and "nat (N th) \<le> length (unsrt th)"
  shows "count_targets tr p1
           (th\<lparr>unsrt := map (classify tr dr pli p1) (take (nat (N th)) (unsrt th))
                          @ drop (nat (N th)) (unsrt th),
               th_nreported := c\<rparr>)
         = count_targets tr pli th"
  using assms by (simp add: count_targets_def comp_def)

lemma pli_after_again:
  assumes "count_targets tr (pli_after tr pli th) th1 = count_targets tr pli th"
  shows "pli_after tr (pli_after tr pli th) th1 = pli_after tr pli th"
proof (cases "domZ_setby pli = p7_ZSETBY_NTARGETS")
  case True
  then have e: "pli_after tr pli th = pli\<lparr>domZ := real_of_int (count_targets tr pli th)\<rparr>"
    by (simp add: pli_after_def)
  from assms have "count_targets tr (pli\<lparr>domZ := real_of_int (count_targets tr pli th)\<rparr>) th1
     = count_targets tr pli th" by (simp add: e)
  with True show ?thesis by (simp add: pli_after_def)
next
  case False
  then show ?thesis by (simp add: pli_after_def)
qed

lemma pli_after_same:
  assumes "\<forall>z. tr (pli\<lparr>domZ := z\<rparr>) = tr pli"
  shows "tr (pli_after tr pli th) = tr pli"
  using assms by (simp add: pli_after_def)

lemma Threshold_list_dom:
  "p7_tophits_Threshold accept_10 accept_10 list_dom pli0
     = Some (eslOK, list_dom\<lparr>unsrt := [hit_dom_once], th_nreported := 1\<rparr>, pli0\<lparr>domZ := 1\<rparr>)"
  by code_simp

lemma Threshold_list_dom_again:
  "p7_tophits_Threshold accept_10 accept_10
     (list_dom\<lparr>unsrt := [hit_dom_once], th_nreported := 1\<rparr>) (pli0\<lparr>domZ := 1\<rparr>)
     = Some (eslOK, list_dom\<lparr>unsrt := [hit_dom_twice], th_nreported := 1\<rparr>, pli0\<lparr>domZ := 1\<rparr>)"
  by code_simp

lemma view_valid_list_dom: "view_valid list_dom"
  by (simp add: view_valid_def arena_addrs_def list_dom_def)

lemma records_list_dom: "take (nat (N list_dom)) (unsrt list_dom) = [hit_dom]"
  by (simp add: list_dom_def)

lemma hit_dom_ok: "domains_ok hit_dom \<and> fresh_hit hit_dom"
  by (simp add: domains_ok_def fresh_hit_def hit_dom_def mk_hit_def empty_hit_def
      dom_a_def dom_b_def)

section \<open>Thresholding: reported records and their domains\<close>

text \<open>
  C4, as the code has it. On a list with a valid View whose records have the domain
  arrays they announce, \<^verbatim>\<open>p7_tophits_Threshold\<close> returns \<^verbatim>\<open>eslOK\<close>, and afterwards
  every record the View shows that is flagged as reported and whose \<open>best_domain\<close> is
  the index of one of its domains (\<open>0 \<le> best_domain < ndom\<close>) has that best domain
  flagged as reported, whatever the two predicates are, also when the domain predicate
  rejects every domain.
\<close>

theorem threshold_reports_best_domain:
  assumes vv: "view_valid th"
    and ok: "\<forall>r\<in>set (take (nat (N th)) (unsrt th)). domains_ok r"
  shows "\<exists>th' pli'. p7_tophits_Threshold tr dr th pli = Some (eslOK, th', pli') \<and>
           N th' = N th \<and>
           (\<forall>i<nat (N th'). \<exists>r. deref th' (hit th' ! i) = Some r \<and>
              (is_reported r \<and> 0 \<le> best_domain r \<and> best_domain r < ndom r \<longrightarrow>
                 (\<exists>ds. dcl r = Some ds \<and> nat (best_domain r) < length ds \<and>
                       dom_is_reported (ds ! nat (best_domain r)))))"
proof -
  define f where "f = classify tr dr pli (pli_after tr pli th)"
  define th' where "th' = th\<lparr>unsrt := map f (take (nat (N th)) (unsrt th))
                                        @ drop (nat (N th)) (unsrt th),
                             th_nreported := count_targets tr pli th\<rparr>"
  have t: "p7_tophits_Threshold tr dr th pli = Some (eslOK, th', pli_after tr pli th)"
    unfolding th'_def f_def by (rule Threshold_result [OF vv ok])
  have n: "N th' = N th" by (simp add: th'_def)
  have "\<exists>r. deref th' (hit th' ! i) = Some r \<and>
              (is_reported r \<and> 0 \<le> best_domain r \<and> best_domain r < ndom r \<longrightarrow>
                 (\<exists>ds. dcl r = Some ds \<and> nat (best_domain r) < length ds \<and>
                       dom_is_reported (ds ! nat (best_domain r))))"
    if i: "i < nat (N th)" for i
  proof -
    define r where "r = unsrt th ! slot th (hit th ! i)"
    from deref_after [OF vv i th'_def]
    have d: "deref th' (hit th' ! i) = Some (f r)" and m: "r \<in> set (take (nat (N th)) (unsrt th))"
      by (simp_all add: r_def)
    from ok m have dok: "domains_ok (mark_target tr pli r)"
      by (simp add: domains_ok_mark_target)
    have "\<exists>ds. dcl (f r) = Some ds \<and> nat (best_domain (f r)) < length ds \<and>
                       dom_is_reported (ds ! nat (best_domain (f r)))"
      if "is_reported (f r)" "0 \<le> best_domain (f r)" "best_domain (f r) < ndom (f r)"
      using that mark_closed_best [OF dok, of dr "pli_after tr pli th"]
      by (simp add: f_def) (simp add: classify_def)
    with d show ?thesis by blast
  qed
  with t n show ?thesis by auto
qed

theorem threshold_reports_best_domain_witness:
  "p7_tophits_Threshold accept_all reject_all list_dom pli0
     = Some (eslOK, list_dom\<lparr>unsrt := [hit_dom_once], th_nreported := 1\<rparr>, pli0\<lparr>domZ := 1\<rparr>) \<and>
   is_reported hit_dom_once \<and> best_domain hit_dom_once = 0 \<and> ndom hit_dom_once = 2 \<and>
   dcl hit_dom_once = Some [dom_a\<lparr>dom_is_reported := True\<rparr>, dom_b]"
proof -
  have a: "\<forall>r\<in>set (take (nat (N list_dom)) (unsrt list_dom)). domains_ok r"
    using hit_dom_ok by (simp add: records_list_dom)
  have t: "p7_tophits_Threshold accept_all reject_all list_dom pli0
     = Some (eslOK, list_dom\<lparr>unsrt := [hit_dom_once], th_nreported := 1\<rparr>, pli0\<lparr>domZ := 1\<rparr>)"
    by code_simp
  have e: "is_reported hit_dom_once \<and> best_domain hit_dom_once = 0 \<and> ndom hit_dom_once = 2 \<and>
   dcl hit_dom_once = Some [dom_a\<lparr>dom_is_reported := True\<rparr>, dom_b]"
    by (simp add: hit_dom_once_def hit_dom_def mk_hit_def empty_hit_def)
  from threshold_reports_best_domain [OF view_valid_list_dom a, of accept_all reject_all pli0]
    t e
  show ?thesis by simp
qed


text \<open>
  C4, as stated, fails: a record whose \<open>best_domain\<close> is still the \<open>-1\<close> that
  \<^verbatim>\<open>p7_tophits_CreateNextHit\<close> stores is flagged as reported by a target predicate that
  accepts it, and none of its two domains is flagged when the domain predicate rejects
  them.
\<close>

theorem threshold_no_best_counterexample:
  "p7_tophits_Threshold accept_all reject_all list_nobest pli0
     = Some (eslOK,
         list_nobest\<lparr>unsrt := [hit_dom\<lparr>best_domain := - 1, is_reported := True\<rparr>],
                     th_nreported := 1\<rparr>,
         pli0\<lparr>domZ := 1\<rparr>) \<and>
   is_reported (hit_dom\<lparr>best_domain := - 1, is_reported := True\<rparr>) \<and>
   dcl (hit_dom\<lparr>best_domain := - 1, is_reported := True\<rparr>) = Some [dom_a, dom_b] \<and>
   \<not> dom_is_reported dom_a \<and> \<not> dom_is_reported dom_b"
  by code_simp

text \<open>
  C10. \<^verbatim>\<open>p7_tophits_Threshold\<close> is not idempotent on the per-record counters. On a list
  with a valid View whose records are fresh (nothing flagged, counters zero), and with a
  target predicate that does not read \<open>domZ\<close> (so that both calls use the same
  predicates), two calls in a row both return \<^verbatim>\<open>eslOK\<close>; the list's reported count is
  the same after the second call as after the first; the same records are flagged as
  reported and the same number of their domains; and for every reported record the
  per-record count \<open>nreported\<close> equals the number of its reported domains after the first
  call and twice that number after the second.
\<close>

theorem threshold_twice_doubles_counts:
  assumes vv: "view_valid th"
    and ok: "\<forall>r\<in>set (take (nat (N th)) (unsrt th)). domains_ok r \<and> fresh_hit r"
    and same: "\<forall>z. tr (pli\<lparr>domZ := z\<rparr>) = tr pli"
  shows "\<exists>th1 pli1 th2 pli2.
           p7_tophits_Threshold tr dr th pli = Some (eslOK, th1, pli1) \<and>
           p7_tophits_Threshold tr dr th1 pli1 = Some (eslOK, th2, pli2) \<and>
           th_nreported th2 = th_nreported th1 \<and>
           (\<forall>i<nat (N th). \<exists>r1 r2.
              deref th1 (hit th1 ! i) = Some r1 \<and> deref th2 (hit th2 ! i) = Some r2 \<and>
              is_reported r2 = is_reported r1 \<and>
              n_reported_domains r2 = n_reported_domains r1 \<and>
              (is_reported r1 \<longrightarrow> nreported r1 = n_reported_domains r1 \<and>
                                   nreported r2 = 2 * n_reported_domains r2))"
proof -
  define n where "n = nat (N th)"
  define p1 where "p1 = pli_after tr pli th"
  define f1 where "f1 = classify tr dr pli p1"
  define f2 where "f2 = classify tr dr p1 p1"
  define th1 where "th1 = th\<lparr>unsrt := map f1 (take (nat (N th)) (unsrt th))
                                         @ drop (nat (N th)) (unsrt th),
                             th_nreported := count_targets tr pli th\<rparr>"
  define th2 where "th2 = th1\<lparr>unsrt := map f2 (take (nat (N th1)) (unsrt th1))
                                         @ drop (nat (N th1)) (unsrt th1),
                             th_nreported := count_targets tr pli th\<rparr>"
  from vv have nu: "nat (N th) \<le> length (unsrt th)" by (simp add: view_valid_def)
  from ok have ok0: "\<forall>r\<in>set (take (nat (N th)) (unsrt th)). domains_ok r" by simp
  have t1: "p7_tophits_Threshold tr dr th pli = Some (eslOK, th1, p1)"
    unfolding th1_def f1_def p1_def by (rule Threshold_result [OF vv ok0])
  have trp: "tr p1 = tr pli" unfolding p1_def by (rule pli_after_same [OF same])
  have vv1: "view_valid th1"
    using vv nu by (simp add: th1_def view_valid_def arena_addrs_def)
  have tk1: "take (nat (N th1)) (unsrt th1) = map f1 (take (nat (N th)) (unsrt th))"
    using nu by (simp add: th1_def)
  have ok1: "\<forall>r\<in>set (take (nat (N th1)) (unsrt th1)). domains_ok r"
    unfolding tk1 using ok0 by (simp add: f1_def domains_ok_classify)
  have c1: "count_targets tr p1 th1 = count_targets tr pli th"
    unfolding th1_def f1_def by (rule count_targets_again [OF trp nu])
  then have pp: "pli_after tr p1 th1 = p1"
    unfolding p1_def by (rule pli_after_again)
  have t2: "p7_tophits_Threshold tr dr th1 p1 = Some (eslOK, th2, p1)"
    using Threshold_result [OF vv1 ok1, of tr dr p1]
    by (simp add: pp c1 th2_def f2_def)
  have cnt: "th_nreported th2 = th_nreported th1" by (simp add: th2_def th1_def)
  have n1: "N th1 = N th" by (simp add: th1_def)
  have "\<exists>r1 r2. deref th1 (hit th1 ! i) = Some r1 \<and> deref th2 (hit th2 ! i) = Some r2 \<and>
              is_reported r2 = is_reported r1 \<and>
              n_reported_domains r2 = n_reported_domains r1 \<and>
              (is_reported r1 \<longrightarrow> nreported r1 = n_reported_domains r1 \<and>
                                   nreported r2 = 2 * n_reported_domains r2)"
    if i: "i < nat (N th)" for i
  proof -
    define r where "r = unsrt th ! slot th (hit th ! i)"
    from deref_after [OF vv i th1_def]
    have d1: "deref th1 (hit th1 ! i) = Some (f1 r)"
      and m: "r \<in> set (take (nat (N th)) (unsrt th))"
      by (simp_all add: r_def)
    from i have i1: "i < nat (N th1)" by (simp add: n1)
    from deref_after [OF vv1 i1 th2_def] d1
    have d2: "deref th2 (hit th2 ! i) = Some (f2 (f1 r))" by simp
    from ok m have "domains_ok r" "fresh_hit r" by simp_all
    from classify_twice [OF this trp, of "f1 r" dr "f2 (f1 r)"] d1 d2
    show ?thesis by (simp add: f1_def f2_def)
  qed
  with t1 t2 cnt show ?thesis by blast
qed

theorem threshold_twice_doubles_counts_witness:
  "p7_tophits_Threshold accept_10 accept_10 list_dom pli0
     = Some (eslOK, list_dom\<lparr>unsrt := [hit_dom_once], th_nreported := 1\<rparr>, pli0\<lparr>domZ := 1\<rparr>) \<and>
   p7_tophits_Threshold accept_10 accept_10
     (list_dom\<lparr>unsrt := [hit_dom_once], th_nreported := 1\<rparr>) (pli0\<lparr>domZ := 1\<rparr>)
     = Some (eslOK, list_dom\<lparr>unsrt := [hit_dom_twice], th_nreported := 1\<rparr>, pli0\<lparr>domZ := 1\<rparr>) \<and>
   is_reported hit_dom_twice \<and> n_reported_domains hit_dom_twice = 1 \<and>
   nreported hit_dom_once = 1 \<and> nreported hit_dom_twice = 2"
proof -
  have a: "\<forall>r\<in>set (take (nat (N list_dom)) (unsrt list_dom)). domains_ok r \<and> fresh_hit r"
    using hit_dom_ok by (simp add: records_list_dom)
  have b: "\<forall>z. accept_10 (pli0\<lparr>domZ := z\<rparr>) = accept_10 pli0"
    by (intro allI ext) (simp add: accept_10_def)
  have c: "deref (list_dom\<lparr>unsrt := [hit_dom_twice], th_nreported := 1\<rparr>)
             (hit (list_dom\<lparr>unsrt := [hit_dom_twice], th_nreported := 1\<rparr>) ! 0)
           = Some hit_dom_twice"
    by (simp add: deref_def in_arena_def slot_def list_dom_def)
  have d: "deref (list_dom\<lparr>unsrt := [hit_dom_once], th_nreported := 1\<rparr>)
             (hit (list_dom\<lparr>unsrt := [hit_dom_once], th_nreported := 1\<rparr>) ! 0)
           = Some hit_dom_once"
    by (simp add: deref_def in_arena_def slot_def list_dom_def)
  have e: "is_reported hit_dom_once" "is_reported hit_dom_twice"
    "nreported hit_dom_once = 1" "nreported hit_dom_twice = 2"
    by (simp_all add: hit_dom_once_def hit_dom_twice_def)
  have n: "(0::nat) < nat (N list_dom)" by (simp add: list_dom_def)
  from threshold_twice_doubles_counts [OF view_valid_list_dom a b, of accept_10]
  obtain th1 p1 th2 p2 where
    t1: "p7_tophits_Threshold accept_10 accept_10 list_dom pli0 = Some (eslOK, th1, p1)"
    and t2: "p7_tophits_Threshold accept_10 accept_10 th1 p1 = Some (eslOK, th2, p2)"
    and al: "\<forall>i<nat (N list_dom). \<exists>r1 r2.
              deref th1 (hit th1 ! i) = Some r1 \<and> deref th2 (hit th2 ! i) = Some r2 \<and>
              is_reported r2 = is_reported r1 \<and>
              n_reported_domains r2 = n_reported_domains r1 \<and>
              (is_reported r1 \<longrightarrow> nreported r1 = n_reported_domains r1 \<and>
                                   nreported r2 = 2 * n_reported_domains r2)"
    by blast
  from t1 Threshold_list_dom
  have h1: "th1 = list_dom\<lparr>unsrt := [hit_dom_once], th_nreported := 1\<rparr>"
    and "p1 = pli0\<lparr>domZ := 1\<rparr>" by simp_all
  with t2 Threshold_list_dom_again
  have h2: "th2 = list_dom\<lparr>unsrt := [hit_dom_twice], th_nreported := 1\<rparr>" by simp
  from al n obtain r1 r2 where
    "deref th1 (hit th1 ! 0) = Some r1" "deref th2 (hit th2 ! 0) = Some r2"
    "is_reported r1 \<longrightarrow> nreported r2 = 2 * n_reported_domains r2"
    by blast
  with c d e have "n_reported_domains hit_dom_twice = 1" unfolding h1 h2 by simp
  with Threshold_list_dom Threshold_list_dom_again e show ?thesis by simp
qed

section \<open>Merging: the loops and the merge of two Views\<close>

lemma mset_merge_views:
  "mset (merge_views k1 k2 tr ps qs) = mset ps + mset (map tr qs)"
  by (induction k1 k2 tr ps qs rule: merge_views.induct) auto

lemma set_merge_views:
  "set (merge_views k1 k2 tr ps qs) = set ps \<union> tr ` set qs"
  by (induction k1 k2 tr ps qs rule: merge_views.induct) auto

lemma length_merge_views:
  "length (merge_views k1 k2 tr ps qs) = length ps + length qs"
  by (induction k1 k2 tr ps qs rule: merge_views.induct) auto

lemma merge_views_Nil2 [simp]: "merge_views k1 k2 tr ps [] = ps"
  by (cases ps) simp_all

lemma sorted_merge_views:
  assumes "\<forall>p\<in>set ps. key p = k1 p" and "\<forall>q\<in>set qs. key (tr q) = k2 q"
    and "sorted_wrt (\<lambda>a b. key b \<le> key a) ps"
    and "sorted_wrt (\<lambda>a b. key b \<le> key a) (map tr qs)"
  shows "sorted_wrt (\<lambda>a b. (key b :: real) \<le> key a) (merge_views k1 k2 tr ps qs)"
  using assms
proof (induction k1 k2 tr ps qs rule: merge_views.induct)
  case (1 k1 k2 tr qs)
  then show ?case by simp
next
  case (2 k1 k2 tr p ps)
  then show ?case by simp
next
  case (3 k1 k2 tr p ps q qs)
  show ?case
  proof (cases "k2 q > k1 p")
    case True
    have "sorted_wrt (\<lambda>a b. key b \<le> key a) (merge_views k1 k2 tr (p # ps) qs)"
      using 3 True by simp
    moreover have "\<forall>b\<in>set (merge_views k1 k2 tr (p # ps) qs). key b \<le> key (tr q)"
    proof
      fix b assume "b \<in> set (merge_views k1 k2 tr (p # ps) qs)"
      then consider "b = p" | "b \<in> set ps" | "b \<in> tr ` set qs"
        by (auto simp add: set_merge_views)
      then show "key b \<le> key (tr q)"
      proof cases
        case 1
        with True "3.prems"(1,2) show ?thesis by simp
      next
        case 2
        with "3.prems"(3) have "key b \<le> key p" by simp
        with True "3.prems"(1,2) show ?thesis by simp
      next
        case 3
        with "3.prems"(4) show ?thesis by auto
      qed
    qed
    ultimately show ?thesis using True by simp
  next
    case False
    have "sorted_wrt (\<lambda>a b. key b \<le> key a) (merge_views k1 k2 tr ps (q # qs))"
      using 3 False by simp
    moreover have "\<forall>b\<in>set (merge_views k1 k2 tr ps (q # qs)). key b \<le> key p"
    proof
      fix b assume "b \<in> set (merge_views k1 k2 tr ps (q # qs))"
      then consider "b \<in> set ps" | "b = tr q" | "b \<in> tr ` set qs"
        by (auto simp add: set_merge_views)
      then show "key b \<le> key p"
      proof cases
        case 1
        with "3.prems"(3) show ?thesis by simp
      next
        case 2
        with False "3.prems"(1,2) show ?thesis by simp
      next
        case 3
        with "3.prems"(4) have "key b \<le> key (tr q)" by auto
        with False "3.prems"(1,2) show ?thesis by simp
      qed
    qed
    ultimately show ?thesis using False by simp
  qed
qed

lemma sorted_wrt_all: "(\<forall>a\<in>set xs. \<forall>b\<in>set xs. R a b) \<Longrightarrow> sorted_wrt R xs"
  by (induction xs) auto

text \<open>A donor entry that comes before a recipient entry has a strictly greater key.\<close>

lemma ties_merge_views:
  assumes "\<forall>p\<in>set ps. key p = k1 p \<and> p < new2"
    and "\<forall>q\<in>set qs. key (tr q) = k2 q \<and> new2 \<le> tr q"
    and "sorted_wrt (\<lambda>a b. key b \<le> key a) ps"
  shows "sorted_wrt (\<lambda>a b. new2 \<le> a \<and> b < new2 \<longrightarrow> (key b :: real) < key a)
           (merge_views k1 k2 tr ps qs)"
  using assms
proof (induction k1 k2 tr ps qs rule: merge_views.induct)
  case (1 k1 k2 tr qs)
  then have "\<forall>b\<in>set (map tr qs). \<not> b < new2" by auto
  then show ?case by (simp only: merge_views.simps) (intro sorted_wrt_all, blast)
next
  case (2 k1 k2 tr p ps)
  then have "\<forall>a\<in>set (p # ps). \<not> new2 \<le> a" by auto
  then show ?case by (simp only: merge_views.simps) (intro sorted_wrt_all, blast)
next
  case (3 k1 k2 tr p ps q qs)
  show ?case
  proof (cases "k2 q > k1 p")
    case True
    have "sorted_wrt (\<lambda>a b. new2 \<le> a \<and> b < new2 \<longrightarrow> key b < key a)
            (merge_views k1 k2 tr (p # ps) qs)"
      using 3 True by simp
    moreover have "\<forall>b\<in>set (merge_views k1 k2 tr (p # ps) qs).
        new2 \<le> tr q \<and> b < new2 \<longrightarrow> key b < key (tr q)"
    proof (intro ballI impI)
      fix b assume b: "b \<in> set (merge_views k1 k2 tr (p # ps) qs)" and c: "new2 \<le> tr q \<and> b < new2"
      from b consider "b = p" | "b \<in> set ps" | "b \<in> tr ` set qs"
        by (auto simp add: set_merge_views)
      then show "key b < key (tr q)"
      proof cases
        case 1
        with True "3.prems"(1,2) show ?thesis by simp
      next
        case 2
        with "3.prems"(3) have "key b \<le> key p" by simp
        with True "3.prems"(1,2) show ?thesis by simp
      next
        case 3
        with "3.prems"(2) c show ?thesis by auto
      qed
    qed
    ultimately show ?thesis using True by simp
  next
    case False
    have "sorted_wrt (\<lambda>a b. new2 \<le> a \<and> b < new2 \<longrightarrow> key b < key a)
            (merge_views k1 k2 tr ps (q # qs))"
      using 3 False by simp
    moreover have "\<not> new2 \<le> p" using "3.prems"(1) by auto
    ultimately show ?thesis using False by simp
  qed
qed

declare merge_heads.simps [simp del] drain_recipient.simps [simp del] drain_donor.simps [simp del]

lemma map_prefix_update:
  "n < length xs \<Longrightarrow>
     (map f (take n xs) @ drop n xs)[n := f (xs ! n)] = map f (take (Suc n) xs) @ drop (Suc n) xs"
  by (simp add: take_Suc_conv_app_nth list_update_at_length)

lemma map_prefix_nth: "n < length xs \<Longrightarrow> (map f (take n xs) @ drop n xs) ! n = xs ! n"
  by (simp add: nth_append)

lemma rebase_loop:
  "for_loop [0..<n] (rebase_view ori) h =
     (if n \<le> length (hit h)
      then Some (h\<lparr>hit := map (\<lambda>p. unsrt_base h + (p - ori)) (take n (hit h)) @ drop n (hit h)\<rparr>)
      else None)"
proof (induction n)
  case 0
  then show ?case by simp
next
  case (Suc n)
  show ?case
  proof (cases "n < length (hit h)")
    case True
    then show ?thesis
      using Suc map_prefix_update [OF True, of "\<lambda>p. unsrt_base h + (p - ori)"]
      by (simp add: for_loop_upt_Suc rebase_view_def view_at_def set_view_def map_prefix_nth
          del: upt_Suc)
  next
    case False
    then show ?thesis
      using Suc
      by (auto simp add: for_loop_upt_Suc rebase_view_def view_at_def set_view_def
          simp del: upt_Suc)
  qed
qed

lemma nullify_loop:
  "for_loop [0..<n] nullify h =
     (if n \<le> length (unsrt h)
      then Some (h\<lparr>unsrt := map (\<lambda>r. r\<lparr>name := None, acc := None, desc := None\<rparr>)
                               (take n (unsrt h)) @ drop n (unsrt h)\<rparr>)
      else None)"
proof (induction n)
  case 0
  then show ?case by simp
next
  case (Suc n)
  show ?case
  proof (cases "n < length (unsrt h)")
    case True
    then show ?thesis
      using Suc map_prefix_update [OF True, of "\<lambda>r. r\<lparr>name := None, acc := None, desc := None\<rparr>"]
      by (simp add: for_loop_upt_Suc nullify_def map_prefix_nth del: upt_Suc)
  next
    case False
    then show ?thesis
      using Suc by (auto simp add: for_loop_upt_Suc nullify_def simp del: upt_Suc)
  qed
qed

lemma drain_recipient_result:
  assumes "n1 = nat (N h1)" and "n1 \<le> length (hit h1)"
  shows "i \<le> n1 \<Longrightarrow> k + (n1 - i) \<le> length nh \<Longrightarrow>
     drain_recipient h1 (i, k, nh) =
       Some (n1, k + (n1 - i),
             take k nh @ drop i (take n1 (hit h1)) @ drop (k + (n1 - i)) nh)"
proof (induction "n1 - i" arbitrary: i k nh)
  case 0
  then show ?case using assms by (simp add: drain_recipient.simps)
next
  case (Suc d)
  then have i: "i < n1" and k: "k < length nh" by simp_all
  define v where "v = hit h1 ! i"
  have d: "d = n1 - Suc i" using Suc.hyps(2) by simp
  have e: "Suc k + (n1 - Suc i) = k + (n1 - i)" using i by simp
  have t: "take (Suc k) (nh[k := v]) = take k nh @ [v]"
    using k by (simp add: take_Suc_conv_app_nth)
  have u: "drop (k + (n1 - i)) (nh[k := v]) = drop (k + (n1 - i)) nh"
    using i by (intro drop_update_cancel) simp
  have dp: "drop i (take n1 (hit h1)) = v # drop (Suc i) (take n1 (hit h1))"
    using i assms(2) by (simp add: Cons_nth_drop_Suc [symmetric] v_def)
  have "drain_recipient h1 (i, k, nh) = drain_recipient h1 (Suc i, Suc k, nh[k := v])"
    using i k assms by (subst drain_recipient.simps) (simp add: view_at_def put_def v_def)
  also have "\<dots> = Some (n1, Suc k + (n1 - Suc i),
             take (Suc k) (nh[k := v]) @ drop (Suc i) (take n1 (hit h1))
               @ drop (Suc k + (n1 - Suc i)) (nh[k := v]))"
    using Suc.prems i by (intro Suc.hyps(1) [OF d]) simp_all
  also have "\<dots> = Some (n1, k + (n1 - i),
             take k nh @ drop i (take n1 (hit h1)) @ drop (k + (n1 - i)) nh)"
    unfolding e t u dp by simp
  finally show ?case .
qed

lemma drain_donor_result:
  assumes "n2 = nat (N h2)" and "n2 \<le> length (hit h2)"
  shows "j \<le> n2 \<Longrightarrow> k + (n2 - j) \<le> length nh \<Longrightarrow>
     drain_donor h2 new2 (j, k, nh) =
       Some (n2, k + (n2 - j),
             take k nh @ map (\<lambda>q. new2 + (q - unsrt_base h2)) (drop j (take n2 (hit h2)))
               @ drop (k + (n2 - j)) nh)"
proof (induction "n2 - j" arbitrary: j k nh)
  case 0
  then show ?case using assms by (simp add: drain_donor.simps)
next
  case (Suc d)
  then have j: "j < n2" and k: "k < length nh" by simp_all
  define v where "v = new2 + (hit h2 ! j - unsrt_base h2)"
  have d: "d = n2 - Suc j" using Suc.hyps(2) by simp
  have e: "Suc k + (n2 - Suc j) = k + (n2 - j)" using j by simp
  have t: "take (Suc k) (nh[k := v]) = take k nh @ [v]"
    using k by (simp add: take_Suc_conv_app_nth)
  have u: "drop (k + (n2 - j)) (nh[k := v]) = drop (k + (n2 - j)) nh"
    using j by (intro drop_update_cancel) simp
  have dp: "map (\<lambda>q. new2 + (q - unsrt_base h2)) (drop j (take n2 (hit h2)))
      = v # map (\<lambda>q. new2 + (q - unsrt_base h2)) (drop (Suc j) (take n2 (hit h2)))"
    using j assms(2) by (simp add: Cons_nth_drop_Suc [symmetric] v_def)
  have "drain_donor h2 new2 (j, k, nh) = drain_donor h2 new2 (Suc j, Suc k, nh[k := v])"
    using j k assms by (subst drain_donor.simps) (simp add: view_at_def put_def v_def)
  also have "\<dots> = Some (n2, Suc k + (n2 - Suc j),
             take (Suc k) (nh[k := v])
               @ map (\<lambda>q. new2 + (q - unsrt_base h2)) (drop (Suc j) (take n2 (hit h2)))
               @ drop (Suc k + (n2 - Suc j)) (nh[k := v]))"
    using Suc.prems j by (intro Suc.hyps(1) [OF d]) simp_all
  also have "\<dots> = Some (n2, k + (n2 - j),
             take k nh @ map (\<lambda>q. new2 + (q - unsrt_base h2)) (drop j (take n2 (hit h2)))
               @ drop (k + (n2 - j)) nh)"
    unfolding e t u dp by simp
  finally show ?case .
qed

lemma merge_views_one_empty:
  "ps = [] \<or> qs = [] \<Longrightarrow> merge_views k1 k2 tr ps qs = ps @ map tr qs"
  by (cases ps) auto

lemma merge_loops_result:
  assumes n1: "n1 = nat (N h1)" "n1 \<le> length (hit h1)"
    and n2: "n2 = nat (N h2)" "n2 \<le> length (hit h2)"
    and a1: "\<forall>p\<in>set (take n1 (hit h1)). in_arena h1 p"
    and a2: "\<forall>q\<in>set (take n2 (hit h2)). in_arena h2 q"
  shows "i \<le> n1 \<Longrightarrow> j \<le> n2 \<Longrightarrow> k + (n1 - i) + (n2 - j) \<le> length nh \<Longrightarrow>
     merge_loops h1 h2 new2 (i, j, k, nh) =
       Some (take k nh
             @ merge_views (\<lambda>p. sortkey (unsrt h1 ! slot h1 p))
                 (\<lambda>q. sortkey (unsrt h2 ! slot h2 q))
                 (\<lambda>q. new2 + (q - unsrt_base h2))
                 (drop i (take n1 (hit h1))) (drop j (take n2 (hit h2)))
             @ drop (k + (n1 - i) + (n2 - j)) nh)"
proof (induction "(n1 - i) + (n2 - j)" arbitrary: i j k nh rule: less_induct)
  case less
  define P where "P = take n1 (hit h1)"
  define Q where "Q = take n2 (hit h2)"
  define K1 where "K1 = (\<lambda>p. sortkey (unsrt h1 ! slot h1 p))"
  define K2 where "K2 = (\<lambda>q. sortkey (unsrt h2 ! slot h2 q))"
  define TR where "TR = (\<lambda>q. new2 + (q - unsrt_base h2))"
  have lP: "length P = n1" and lQ: "length Q = n2" using n1 n2 by (simp_all add: P_def Q_def)
  show ?case
    unfolding P_def [symmetric] Q_def [symmetric] K1_def [symmetric] K2_def [symmetric]
      TR_def [symmetric]
  proof (cases "i < n1 \<and> j < n2")
    case True
    then have i: "i < n1" and j: "j < n2" by simp_all
    from less.prems i j have k: "k < length nh" by simp
    define p where "p = hit h1 ! i"
    define q where "q = hit h2 ! j"
    have pP: "P ! i = p" and qQ: "Q ! j = q" using i j by (simp_all add: P_def Q_def p_def q_def)
    have "p \<in> set P" using i lP pP by (metis nth_mem)
    with a1 have ap: "in_arena h1 p" by (simp add: P_def)
    have "q \<in> set Q" using j lQ qQ by (metis nth_mem)
    with a2 have aq: "in_arena h2 q" by (simp add: Q_def)
    have va1: "view_at h1 i = Some p" using i n1 by (simp add: view_at_def p_def)
    have va2: "view_at h2 j = Some q" using j n2 by (simp add: view_at_def q_def)
    have sk1: "sortkey_at h1 i = Some (K1 p)"
      using va1 ap by (simp add: sortkey_at_def deref_def K1_def)
    have sk2: "sortkey_at h2 j = Some (K2 q)"
      using va2 aq by (simp add: sortkey_at_def deref_def K2_def)
    have dP: "drop i P = p # drop (Suc i) P" using i lP pP by (simp add: Cons_nth_drop_Suc [symmetric])
    have dQ: "drop j Q = q # drop (Suc j) Q" using j lQ qQ by (simp add: Cons_nth_drop_Suc [symmetric])
    show "merge_loops h1 h2 new2 (i, j, k, nh)
        = Some (take k nh @ merge_views K1 K2 TR (drop i P) (drop j Q)
                  @ drop (k + (n1 - i) + (n2 - j)) nh)"
    proof (cases "K2 q > K1 p")
      case gt: True
      define v where "v = TR q"
      have e: "Suc k + (n1 - i) + (n2 - Suc j) = k + (n1 - i) + (n2 - j)" using j by simp
      have t: "take (Suc k) (nh[k := v]) = take k nh @ [v]"
        using k by (simp add: take_Suc_conv_app_nth)
      have u: "drop (k + (n1 - i) + (n2 - j)) (nh[k := v]) = drop (k + (n1 - i) + (n2 - j)) nh"
        using j by (intro drop_update_cancel) simp
      have "merge_heads h1 h2 new2 (i, j, k, nh) = merge_heads h1 h2 new2 (i, Suc j, Suc k, nh[k := v])"
        using i j k gt n1 n2 sk1 sk2 va2
        by (subst merge_heads.simps) (simp add: put_def v_def TR_def)
      then have "merge_loops h1 h2 new2 (i, j, k, nh)
          = merge_loops h1 h2 new2 (i, Suc j, Suc k, nh[k := v])"
        by (simp add: merge_loops_def)
      also have "\<dots> = Some (take (Suc k) (nh[k := v])
             @ merge_views K1 K2 TR (drop i P) (drop (Suc j) Q)
             @ drop (Suc k + (n1 - i) + (n2 - Suc j)) (nh[k := v]))"
        unfolding P_def Q_def K1_def K2_def TR_def
        using less.prems i j by (intro less.hyps) simp_all
      also have "\<dots> = Some (take k nh @ merge_views K1 K2 TR (drop i P) (drop j Q)
                  @ drop (k + (n1 - i) + (n2 - j)) nh)"
        unfolding e t u dQ using gt dP by (simp add: v_def)
      finally show ?thesis .
    next
      case le: False
      define v where "v = p"
      have e: "Suc k + (n1 - Suc i) + (n2 - j) = k + (n1 - i) + (n2 - j)" using i by simp
      have t: "take (Suc k) (nh[k := v]) = take k nh @ [v]"
        using k by (simp add: take_Suc_conv_app_nth)
      have u: "drop (k + (n1 - i) + (n2 - j)) (nh[k := v]) = drop (k + (n1 - i) + (n2 - j)) nh"
        using i by (intro drop_update_cancel) simp
      have "merge_heads h1 h2 new2 (i, j, k, nh) = merge_heads h1 h2 new2 (Suc i, j, Suc k, nh[k := v])"
        using i j k le n1 n2 sk1 sk2 va1
        by (subst merge_heads.simps) (simp add: put_def v_def)
      then have "merge_loops h1 h2 new2 (i, j, k, nh)
          = merge_loops h1 h2 new2 (Suc i, j, Suc k, nh[k := v])"
        by (simp add: merge_loops_def)
      also have "\<dots> = Some (take (Suc k) (nh[k := v])
             @ merge_views K1 K2 TR (drop (Suc i) P) (drop j Q)
             @ drop (Suc k + (n1 - Suc i) + (n2 - j)) (nh[k := v]))"
        unfolding P_def Q_def K1_def K2_def TR_def
        using less.prems i j by (intro less.hyps) simp_all
      also have "\<dots> = Some (take k nh @ merge_views K1 K2 TR (drop i P) (drop j Q)
                  @ drop (k + (n1 - i) + (n2 - j)) nh)"
        unfolding e t u dP using le dQ by (simp add: v_def)
      finally show ?thesis .
    qed
  next
    case False
    then have emp: "drop i P = [] \<or> drop j Q = []" using lP lQ by auto
    define nhA where "nhA = take k nh @ drop i P @ drop (k + (n1 - i)) nh"
    have lA: "length nhA = length nh" using less.prems lP by (simp add: nhA_def)
    have mh: "merge_heads h1 h2 new2 (i, j, k, nh) = Some (i, j, k, nh)"
      using False n1 n2 by (subst merge_heads.simps) auto
    have dr: "drain_recipient h1 (i, k, nh) = Some (n1, k + (n1 - i), nhA)"
      unfolding nhA_def P_def using less.prems by (intro drain_recipient_result [OF n1]) simp_all
    have dd: "drain_donor h2 new2 (j, k + (n1 - i), nhA)
        = Some (n2, k + (n1 - i) + (n2 - j),
             take (k + (n1 - i)) nhA @ map TR (drop j Q) @ drop (k + (n1 - i) + (n2 - j)) nhA)"
      unfolding Q_def TR_def using less.prems lA by (intro drain_donor_result [OF n2]) simp_all
    have tA: "take (k + (n1 - i)) nhA = take k nh @ drop i P"
      using less.prems lP by (simp add: nhA_def)
    have dA: "drop (k + (n1 - i) + (n2 - j)) nhA = drop (k + (n1 - i) + (n2 - j)) nh"
      using less.prems lP by (simp add: nhA_def add.commute)
    show "merge_loops h1 h2 new2 (i, j, k, nh)
        = Some (take k nh @ merge_views K1 K2 TR (drop i P) (drop j Q)
                  @ drop (k + (n1 - i) + (n2 - j)) nh)"
      using mh dr dd tA dA merge_views_one_empty [OF emp, of K1 K2 TR]
      by (simp add: merge_loops_def)
  qed
qed

lemma Sort_fields:
  assumes "p7_tophits_Sort qs h = Some (st, h')"
  shows "N h' = N h" "unsrt h' = unsrt h" "unsrt_base h' = unsrt_base h" "Nalloc h' = Nalloc h"
    "th_nreported h' = th_nreported h" "hit_base h' = hit_base h"
proof -
  have "N h' = N h \<and> unsrt h' = unsrt h \<and> unsrt_base h' = unsrt_base h \<and> Nalloc h' = Nalloc h \<and>
    th_nreported h' = th_nreported h \<and> hit_base h' = hit_base h"
  proof (cases "is_sorted h")
    case True
    with assms show ?thesis by (simp add: p7_tophits_Sort_def)
  next
    case False
    with assms show ?thesis by (auto simp add: Sort_unsorted split: if_splits)
  qed
  then show "N h' = N h" "unsrt h' = unsrt h" "unsrt_base h' = unsrt_base h" "Nalloc h' = Nalloc h"
    "th_nreported h' = th_nreported h" "hit_base h' = hit_base h" by simp_all
qed

lemma sort_idem_aux:
  assumes "p7_tophits_Sort qs h = Some (st, h')"
  shows "p7_tophits_Sort qs h' = Some (st, h')"
  using Sort_sets_flag [OF assms] by (simp add: p7_tophits_Sort_def)

lemma Merge_after_Sort:
  assumes s1: "p7_tophits_Sort qs h1 = Some (eslOK, h1a)"
    and s2: "p7_tophits_Sort qs h2 = Some (eslOK, h2a)"
  shows "p7_tophits_Merge qs a1 a2 h1 h2 = p7_tophits_Merge qs a1 a2 h1a h2a"
proof -
  have i1: "p7_tophits_Sort qs h1a = Some (eslOK, h1a)" by (rule sort_idem_aux [OF s1])
  have i2: "p7_tophits_Sort qs h2a = Some (eslOK, h2a)" by (rule sort_idem_aux [OF s2])
  show ?thesis
    by (simp add: p7_tophits_Merge_def s1 s2 i1 i2 Sort_fields [OF s1] Sort_fields [OF s2])
qed

lemma view_valid_in_arena:
  assumes "view_valid h" and "p \<in> set (take (nat (N h)) (hit h))"
  shows "unsrt_base h \<le> p \<and> p < unsrt_base h + int (nat (N h))"
proof -
  from assms have "p \<in> set (arena_addrs h)" by (metis view_valid_def set_mset_mset)
  then show ?thesis by (auto simp add: arena_addrs_def)
qed

lemma Merge_sorted:
  assumes b1: "buffers_ok h1" and s1: "is_sorted h1" and v1: "view_valid h1"
    and b2: "buffers_ok h2" and s2: "is_sorted h2" and v2: "view_valid h2"
  shows "p7_tophits_Merge qs (Mem bu ju) (Mem bn jn) h1 h2
           = Some (eslOK, merged bu ju bn jn h1 h2, drained h2)"
proof -
  define n1 where "n1 = nat (N h1)"
  define n2 where "n2 = nat (N h2)"
  define n' where "n' = nat (Nalloc h1 + Nalloc h2)"
  define U0 where "U0 = realloc_cells (unsrt h1) n' ju"
  define U where "U = merged_arena ju h1 h2"
  define nh where "nh = malloc_cells n' jn"
  define h1b where "h1b = h1\<lparr>unsrt := U0, unsrt_base := bu\<rparr>"
  define h1c where "h1c = h1b\<lparr>hit := rebased bu h1 @ drop n1 (hit h1)\<rparr>"
  define h1d where "h1d = h1c\<lparr>unsrt := U\<rparr>"
  define new2 where "new2 = bu + N h1"
  from b1 have N1: "0 \<le> N h1" "int n1 = N h1" and l1: "length (hit h1) = nat (Nalloc h1)"
    "length (unsrt h1) = nat (Nalloc h1)" "n1 \<le> nat (Nalloc h1)"
    by (auto simp add: buffers_ok_def n1_def intro: nat_mono)
  from b2 have N2: "0 \<le> N h2" "int n2 = N h2" and l2: "length (hit h2) = nat (Nalloc h2)"
    "length (unsrt h2) = nat (Nalloc h2)" "n2 \<le> nat (Nalloc h2)"
    by (auto simp add: buffers_ok_def n2_def intro: nat_mono)
  from b1 b2 have n': "n' = nat (Nalloc h1) + nat (Nalloc h2)"
    by (simp add: buffers_ok_def n'_def nat_add_distrib)
  from b1 b2 have I: "N h1 \<le> Nalloc h1" "N h2 \<le> Nalloc h2" "int n' = Nalloc h1 + Nalloc h2"
    by (simp_all add: buffers_ok_def n'_def)
  have lU0: "length U0 = n'" using l1 n' by (simp add: U0_def realloc_cells_def)
  have tU0: "take n1 U0 = take n1 (unsrt h1)" using l1 n' by (simp add: U0_def realloc_cells_def)
  have Ueq: "U = take n1 U0 @ take n2 (unsrt h2) @ drop (n1 + n2) U0"
    unfolding U_def merged_arena_def n1_def [symmetric] n2_def [symmetric] n'_def [symmetric]
      U0_def [symmetric] tU0 ..
  have lU: "length U = n'" using lU0 l1 l2 n' by (simp add: Ueq)
  have lnh: "length nh = n'" by (simp add: nh_def malloc_cells_def)
  have lr: "length (rebased bu h1) = n1" using l1 by (simp add: rebased_def n1_def)
  have so1: "p7_tophits_Sort qs h1 = Some (eslOK, h1)" using s1 by (simp add: p7_tophits_Sort_def)
  have so2: "p7_tophits_Sort qs h2 = Some (eslOK, h2)" using s2 by (simp add: p7_tophits_Sort_def)
  have rb: "for_loop [0..<nat (N h1b)] (rebase_view (unsrt_base h1)) h1b = Some h1c"
    using l1 by (simp add: rebase_loop h1b_def h1c_def rebased_def n1_def)
  have mc: "memcpy_hits h1c (unsrt_base h1c + N h1c) (unsrt h2) (N h2) = Some h1d"
  proof (cases "n2 = 0")
    case True
    then have "N h2 = 0" using N2 by simp
    moreover have "U = U0" using True by (simp add: Ueq)
    ultimately show ?thesis by (simp add: memcpy_hits_def h1d_def h1c_def h1b_def)
  next
    case False
    then have pos: "0 < N h2" using N2 by simp
    have a: "in_arena h1c (bu + N h1)"
      using N1 I pos by (simp add: in_arena_def h1c_def h1b_def lU0)
    have b: "in_arena h1c (bu + N h1 + N h2 - 1)"
      using N1 I pos by (simp add: in_arena_def h1c_def h1b_def lU0)
    have c: "slot h1c (bu + N h1) = n1" by (simp add: slot_def h1c_def h1b_def n1_def)
    have d: "unsrt h1c = U0" by (simp add: h1c_def h1b_def)
    have e: "unsrt_base h1c + N h1c = bu + N h1" by (simp add: h1c_def h1b_def)
    show ?thesis
      unfolding e using a b c d pos N2 l2
      by (simp add: memcpy_hits_def h1d_def Ueq n2_def)
  qed
  have ar1: "\<forall>p\<in>set (take n1 (hit h1d)). in_arena h1d p"
  proof
    fix p assume "p \<in> set (take n1 (hit h1d))"
    then have "p \<in> set (rebased bu h1)" using lr by (simp add: h1d_def h1c_def)
    then obtain p0 where p0: "p0 \<in> set (take (nat (N h1)) (hit h1))"
      and p: "p = bu + (p0 - unsrt_base h1)" by (auto simp add: rebased_def)
    from view_valid_in_arena [OF v1 p0] p N1 N2 I
    show "in_arena h1d p" by (simp add: in_arena_def h1d_def h1c_def h1b_def lU)
  qed
  have ar2: "\<forall>q\<in>set (take n2 (hit h2)). in_arena h2 q"
  proof
    fix q assume "q \<in> set (take n2 (hit h2))"
    then have "q \<in> set (take (nat (N h2)) (hit h2))" by (simp add: n2_def)
    from view_valid_in_arena [OF v2 this] N2 I b2
    show "in_arena h2 q" by (simp add: in_arena_def buffers_ok_def)
  qed
  have "merge_loops h1d h2 new2 (0, 0, 0, nh) =
       Some (take 0 nh
             @ merge_views (\<lambda>p. sortkey (unsrt h1d ! slot h1d p))
                 (\<lambda>q. sortkey (unsrt h2 ! slot h2 q))
                 (\<lambda>q. new2 + (q - unsrt_base h2))
                 (drop 0 (take n1 (hit h1d))) (drop 0 (take n2 (hit h2)))
             @ drop (0 + (n1 - 0) + (n2 - 0)) nh)"
  proof (rule merge_loops_result [OF _ _ _ _ ar1 ar2])
    show "n1 = nat (N h1d)" by (simp add: h1d_def h1c_def h1b_def n1_def)
    show "n1 \<le> length (hit h1d)" using lr by (simp add: h1d_def h1c_def)
    show "n2 = nat (N h2)" by (simp add: n2_def)
    show "n2 \<le> length (hit h2)" using l2 by simp
    show "0 \<le> n1" "0 \<le> n2" by simp_all
    show "0 + (n1 - 0) + (n2 - 0) \<le> length nh" using lnh n' l1 l2 by simp
  qed
  moreover have "take n1 (hit h1d) = rebased bu h1" using lr by (simp add: h1d_def h1c_def)
  moreover have "(\<lambda>p. sortkey (unsrt h1d ! slot h1d p)) = (\<lambda>p. sortkey (U ! nat (p - bu)))"
    by (simp add: h1d_def h1c_def h1b_def slot_def)
  ultimately have ml: "merge_loops h1d h2 (unsrt_base h1c + N h1c) (0, 0, 0, nh)
      = Some (merged_view bu ju h1 h2 @ drop (n1 + n2) nh)"
    by (simp add: merged_view_def U_def new2_def n2_def) (simp add: h1c_def h1b_def)
  have nl: "for_loop [0..<nat (N h2)] nullify h2 = Some (drained h2)"
    using l2 by (simp add: nullify_loop drained_def n2_def)
  have fin: "h1d\<lparr>hit := merged_view bu ju h1 h2 @ drop (n1 + n2) nh, hit_base := bn,
                Nalloc := Nalloc h1 + Nalloc h2, N := N h1d + N (drained h2)\<rparr>
             = merged bu ju bn jn h1 h2"
    by (simp add: merged_def h1d_def h1c_def h1b_def U_def nh_def n'_def n1_def n2_def drained_def)
  have rb': "for_loop [0..<nat (N h1)] (rebase_view (unsrt_base h1)) h1b = Some h1c"
    using rb by (simp add: h1b_def)
  have ml': "merge_loops h1d h2 (unsrt_base h1c + N h1c)
       (0, 0, 0, malloc_cells (nat (Nalloc h1 + Nalloc h2)) jn)
      = Some (merged_view bu ju h1 h2 @ drop (n1 + n2) nh)"
    using ml by (simp add: nh_def n'_def)
  have hb: "h1\<lparr>unsrt := realloc_cells (unsrt h1) (nat (Nalloc h1 + Nalloc h2)) ju,
               unsrt_base := bu\<rparr> = h1b"
    by (simp add: h1b_def U0_def n'_def)
  show ?thesis
    unfolding p7_tophits_Merge_def Let_def so1 so2
    by (simp add: hb rb' mc ml' nl fin)
qed

lemma sorted_from_descending:
  assumes vv: "view_valid h" and vd: "view_descending h"
  shows "sorted_wrt (\<lambda>p q. sortkey (unsrt h ! slot h q) \<le> sortkey (unsrt h ! slot h p))
           (take (nat (N h)) (hit h))"
proof -
  from vv have l: "nat (N h) \<le> length (hit h)" and u: "nat (N h) \<le> length (unsrt h)"
    by (simp_all add: view_valid_def)
  have "sortkey (unsrt h ! slot h (hit h ! j)) \<le> sortkey (unsrt h ! slot h (hit h ! i))"
    if "i < j" "j < nat (N h)" for i j
  proof -
    from that have i: "i < nat (N h)" by simp
    from vd that obtain ri rj where "deref h (hit h ! i) = Some ri" "deref h (hit h ! j) = Some rj"
      "sortkey rj \<le> sortkey ri" unfolding view_descending_def by blast
    moreover from view_valid_entry [OF vv i] view_valid_entry [OF vv that(2)]
    have "in_arena h (hit h ! i)" "in_arena h (hit h ! j)" by simp_all
    ultimately show ?thesis by (simp add: deref_def)
  qed
  with l show ?thesis by (simp add: sorted_wrt_iff_nth_less)
qed

lemma view_records_valid:
  assumes vv: "view_valid h"
  shows "mset (view_records h) = mset (map Some (take (nat (N h)) (unsrt h)))"
proof -
  from vv have u: "nat (N h) \<le> length (unsrt h)"
    and m: "mset (take (nat (N h)) (hit h)) = mset (arena_addrs h)"
    by (simp_all add: view_valid_def)
  have "mset (view_records h) = image_mset (deref h) (mset (take (nat (N h)) (hit h)))"
    by (simp add: view_records_def)
  also have "\<dots> = mset (map (deref h) (arena_addrs h))" by (simp add: m)
  also have "map (deref h) (arena_addrs h) = map Some (take (nat (N h)) (unsrt h))"
    using u by (intro nth_equalityI)
      (simp_all add: arena_addrs_def deref_def in_arena_def slot_def)
  finally show ?thesis .
qed

lemma merged_fields:
  "N (merged bu ju bn jn h1 h2) = N h1 + N h2"
  "unsrt_base (merged bu ju bn jn h1 h2) = bu"
  "hit_base (merged bu ju bn jn h1 h2) = bn"
  "Nalloc (merged bu ju bn jn h1 h2) = Nalloc h1 + Nalloc h2"
  "is_sorted (merged bu ju bn jn h1 h2) = is_sorted h1"
  "th_nreported (merged bu ju bn jn h1 h2) = th_nreported h1"
  "unsrt (merged bu ju bn jn h1 h2) = merged_arena ju h1 h2"
  by (simp_all add: merged_def)

lemma merged_arena_props:
  assumes b1: "buffers_ok h1" and b2: "buffers_ok h2"
  shows "length (merged_arena ju h1 h2) = nat (Nalloc h1 + Nalloc h2)"
    and "take (nat (N h1) + nat (N h2)) (merged_arena ju h1 h2)
           = take (nat (N h1)) (unsrt h1) @ take (nat (N h2)) (unsrt h2)"
    and "\<forall>k<nat (N h1). merged_arena ju h1 h2 ! k = unsrt h1 ! k"
    and "\<forall>j<nat (N h2). merged_arena ju h1 h2 ! (nat (N h1) + j) = unsrt h2 ! j"
proof -
  define n1 where "n1 = nat (N h1)"
  define n2 where "n2 = nat (N h2)"
  from b1 have l1: "length (unsrt h1) = nat (Nalloc h1)" "n1 \<le> nat (Nalloc h1)"
    by (auto simp add: buffers_ok_def n1_def intro: nat_mono)
  from b2 have l2: "length (unsrt h2) = nat (Nalloc h2)" "n2 \<le> nat (Nalloc h2)"
    by (auto simp add: buffers_ok_def n2_def intro: nat_mono)
  from b1 b2 have n': "nat (Nalloc h1 + Nalloc h2) = nat (Nalloc h1) + nat (Nalloc h2)"
    by (simp add: buffers_ok_def nat_add_distrib)
  have la: "length (take n1 (unsrt h1)) = n1" "length (take n2 (unsrt h2)) = n2"
    using l1 l2 by simp_all
  have lr: "length (realloc_cells (unsrt h1) (nat (Nalloc h1 + Nalloc h2)) ju)
      = nat (Nalloc h1) + nat (Nalloc h2)"
    using l1 n' by (simp add: realloc_cells_def)
  show "length (merged_arena ju h1 h2) = nat (Nalloc h1 + Nalloc h2)"
    unfolding merged_arena_def n1_def [symmetric] n2_def [symmetric]
    using l1 l2 la lr n' by simp
  show "take (nat (N h1) + nat (N h2)) (merged_arena ju h1 h2)
           = take (nat (N h1)) (unsrt h1) @ take (nat (N h2)) (unsrt h2)"
    using la by (simp add: merged_arena_def n1_def n2_def)
  show "\<forall>k<nat (N h1). merged_arena ju h1 h2 ! k = unsrt h1 ! k"
    using la by (simp add: merged_arena_def n1_def n2_def nth_append)
  show "\<forall>j<nat (N h2). merged_arena ju h1 h2 ! (nat (N h1) + j) = unsrt h2 ! j"
    using la by (simp add: merged_arena_def n1_def n2_def nth_append)
qed

lemma merged_view_props:
  assumes b1: "buffers_ok h1" and v1: "view_valid h1" and d1: "view_descending h1"
    and b2: "buffers_ok h2" and v2: "view_valid h2" and d2: "view_descending h2"
    and key: "key = (\<lambda>a. sortkey (merged_arena ju h1 h2 ! nat (a - bu)))"
  shows "length (merged_view bu ju h1 h2) = nat (N h1) + nat (N h2)"
    and "mset (merged_view bu ju h1 h2)
           = mset (map (\<lambda>i. bu + int i) [0..<nat (N h1) + nat (N h2)])"
    and "sorted_wrt (\<lambda>a b. key b \<le> key a) (merged_view bu ju h1 h2)"
    and "sorted_wrt (\<lambda>a b. bu + N h1 \<le> a \<and> b < bu + N h1 \<longrightarrow> key b < key a)
           (merged_view bu ju h1 h2)"
proof -
  define n1 where "n1 = nat (N h1)"
  define n2 where "n2 = nat (N h2)"
  define P where "P = take n1 (hit h1)"
  define Q where "Q = take n2 (hit h2)"
  define RB where "RB = (\<lambda>p. bu + (p - unsrt_base h1))"
  define TR where "TR = (\<lambda>q. bu + N h1 + (q - unsrt_base h2))"
  define K2 where "K2 = (\<lambda>q. sortkey (unsrt h2 ! slot h2 q))"
  have mv: "merged_view bu ju h1 h2 = merge_views key K2 TR (map RB P) Q"
    by (simp add: merged_view_def rebased_def key K2_def TR_def RB_def P_def Q_def n1_def n2_def)
  from b1 have N1: "0 \<le> N h1" "int n1 = N h1" by (simp_all add: buffers_ok_def n1_def)
  from b2 have N2: "0 \<le> N h2" "int n2 = N h2" by (simp_all add: buffers_ok_def n2_def)
  from v1 have lP: "length P = n1" and mP: "mset P = mset (arena_addrs h1)"
    by (simp_all add: view_valid_def P_def n1_def)
  from v2 have lQ: "length Q = n2" and mQ: "mset Q = mset (arena_addrs h2)"
    by (simp_all add: view_valid_def Q_def n2_def)
  have inP: "unsrt_base h1 \<le> p \<and> p < unsrt_base h1 + int n1" if "p \<in> set P" for p
    using view_valid_in_arena [OF v1, of p] that by (simp add: P_def n1_def)
  have inQ: "unsrt_base h2 \<le> q \<and> q < unsrt_base h2 + int n2" if "q \<in> set Q" for q
    using view_valid_in_arena [OF v2, of q] that by (simp add: Q_def n2_def)
  have keyR: "key (RB p) = sortkey (unsrt h1 ! slot h1 p)" if "p \<in> set P" for p
  proof -
    from inP [OF that] have "slot h1 p < n1" unfolding slot_def by linarith
    with merged_arena_props(3) [OF b1 b2, of ju]
    show ?thesis by (simp add: key RB_def slot_def n1_def)
  qed
  have keyD: "key (TR q) = K2 q" if "q \<in> set Q" for q
  proof -
    from inQ [OF that] have s: "slot h2 q < n2" unfolding slot_def by linarith
    from inQ [OF that] N1 have "nat (TR q - bu) = n1 + slot h2 q"
      unfolding TR_def slot_def by linarith
    with merged_arena_props(4) [OF b1 b2, of ju] s
    show ?thesis by (simp add: key K2_def n1_def n2_def)
  qed
  show "length (merged_view bu ju h1 h2) = nat (N h1) + nat (N h2)"
    using lP lQ by (simp add: mv length_merge_views n1_def n2_def)
  have "mset (map RB P) = mset (map RB (arena_addrs h1))"
    using mP by (metis mset_map)
  also have "map RB (arena_addrs h1) = map (\<lambda>i. bu + int i) [0..<n1]"
    by (simp add: arena_addrs_def RB_def n1_def)
  finally have m1: "mset (map RB P) = mset (map (\<lambda>i. bu + int i) [0..<n1])" .
  have "mset (map TR Q) = mset (map TR (arena_addrs h2))"
    using mQ by (metis mset_map)
  also have "map TR (arena_addrs h2) = map (\<lambda>i. bu + int i) (map (\<lambda>j. j + n1) [0..<n2])"
    using N1 by (simp add: arena_addrs_def TR_def n2_def)
  also have "map (\<lambda>j. j + n1) [0..<n2] = [n1..<n1 + n2]"
    by (simp add: map_add_upt add.commute)
  finally have m2: "mset (map TR Q) = mset (map (\<lambda>i. bu + int i) [n1..<n1 + n2])" .
  have "[0..<n1 + n2] = [0..<n1] @ [n1..<n1 + n2]"
    by (metis upt_add_eq_append zero_le)
  then show "mset (merged_view bu ju h1 h2)
           = mset (map (\<lambda>i. bu + int i) [0..<nat (N h1) + nat (N h2)])"
    using m1 m2 by (simp add: mv mset_merge_views n1_def n2_def)
  have sP: "sorted_wrt (\<lambda>a b. key b \<le> key a) (map RB P)"
  proof -
    have "sorted_wrt (\<lambda>p q. sortkey (unsrt h1 ! slot h1 q) \<le> sortkey (unsrt h1 ! slot h1 p)) P"
      unfolding P_def n1_def by (rule sorted_from_descending [OF v1 d1])
    then have "sorted_wrt (\<lambda>p q. key (RB q) \<le> key (RB p)) P"
      by (rule sorted_wrt_mono_rel [rotated]) (simp add: keyR)
    then show ?thesis by (simp add: sorted_wrt_map)
  qed
  have sQ: "sorted_wrt (\<lambda>a b. key b \<le> key a) (map TR Q)"
  proof -
    have "sorted_wrt (\<lambda>p q. sortkey (unsrt h2 ! slot h2 q) \<le> sortkey (unsrt h2 ! slot h2 p)) Q"
      unfolding Q_def n2_def by (rule sorted_from_descending [OF v2 d2])
    then have "sorted_wrt (\<lambda>p q. key (TR q) \<le> key (TR p)) Q"
      by (rule sorted_wrt_mono_rel [rotated]) (simp add: keyD K2_def)
    then show ?thesis by (simp add: sorted_wrt_map)
  qed
  show "sorted_wrt (\<lambda>a b. key b \<le> key a) (merged_view bu ju h1 h2)"
    unfolding mv using sP sQ keyD by (intro sorted_merge_views) simp_all
  have "RB p < bu + N h1" if "p \<in> set P" for p
    using inP [OF that] N1 unfolding RB_def by linarith
  then have "\<forall>p\<in>set (map RB P). key p = key p \<and> p < bu + N h1" by auto
  moreover have "bu + N h1 \<le> TR q" if "q \<in> set Q" for q
    using inQ [OF that] unfolding TR_def by linarith
  then have "\<forall>q\<in>set Q. key (TR q) = K2 q \<and> bu + N h1 \<le> TR q"
    using keyD by auto
  ultimately show "sorted_wrt (\<lambda>a b. bu + N h1 \<le> a \<and> b < bu + N h1 \<longrightarrow> key b < key a)
           (merged_view bu ju h1 h2)"
    unfolding mv using sP by (intro ties_merge_views) simp_all
qed

lemma Sort_keeps_inv:
  assumes q: "qsort_contract qs" and inv: "tophits_inv h"
  obtains h' where "p7_tophits_Sort qs h = Some (eslOK, h')" "buffers_ok h'" "is_sorted h'"
    "view_valid h'" "view_descending h'" "N h' = N h" "unsrt h' = unsrt h"
    "unsrt_base h' = unsrt_base h" "Nalloc h' = Nalloc h" "th_nreported h' = th_nreported h"
    "hit_base h' = hit_base h" "is_sorted h \<longrightarrow> h' = h"
proof -
  from Sort_result [OF q inv] obtain h' where
    s: "p7_tophits_Sort qs h = Some (eslOK, h')" and f: "is_sorted h'"
    and l: "length (hit h') = length (hit h)" and v: "view_valid h'" "view_descending h'"
    by blast
  note fs = Sort_fields [OF s]
  from inv l fs have b: "buffers_ok h'" by (simp add: tophits_inv_def buffers_ok_def)
  from s have e: "is_sorted h \<longrightarrow> h' = h" by (auto simp add: p7_tophits_Sort_def)
  from s b f v fs e show ?thesis by (rule that)
qed

lemma merged_inv:
  assumes b1: "buffers_ok h1" and s1: "is_sorted h1" and v1: "view_valid h1"
    and d1: "view_descending h1"
    and b2: "buffers_ok h2" and v2: "view_valid h2" and d2: "view_descending h2"
  shows "buffers_ok (merged bu ju bn jn h1 h2)"
    and "view_valid (merged bu ju bn jn h1 h2)"
    and "view_descending (merged bu ju bn jn h1 h2)"
    and "take (nat (N (merged bu ju bn jn h1 h2))) (hit (merged bu ju bn jn h1 h2))
           = merged_view bu ju h1 h2"
    and "nat (N (merged bu ju bn jn h1 h2)) = nat (N h1) + nat (N h2)"
proof -
  define H where "H = merged bu ju bn jn h1 h2"
  define n1 where "n1 = nat (N h1)"
  define n2 where "n2 = nat (N h2)"
  define n' where "n' = nat (Nalloc h1 + Nalloc h2)"
  define key where "key = (\<lambda>a. sortkey (merged_arena ju h1 h2 ! nat (a - bu)))"
  note mv = merged_view_props [OF b1 v1 d1 b2 v2 d2 key_def]
  note ma = merged_arena_props [OF b1 b2, of ju]
  from b1 b2 have nn: "0 \<le> N h1" "0 \<le> N h2" "n1 + n2 \<le> n'"
    by (auto simp add: buffers_ok_def n1_def n2_def n'_def)
  have NH: "nat (N H) = n1 + n2" using nn by (simp add: H_def merged_fields n1_def n2_def nat_add_distrib)
  have lh: "length (hit H) = n'"
    using mv(1) nn by (simp add: H_def merged_def malloc_cells_def n1_def n2_def n'_def)
  have lu: "length (unsrt H) = n'" using ma(1) by (simp add: H_def merged_fields n'_def)
  have tk: "take (nat (N H)) (hit H) = merged_view bu ju h1 h2"
    unfolding NH using mv(1) by (simp add: H_def merged_def n1_def n2_def)
  have aa: "arena_addrs H = map (\<lambda>i. bu + int i) [0..<n1 + n2]"
    using NH by (simp add: arena_addrs_def) (simp add: H_def merged_fields)
  show b: "buffers_ok (merged bu ju bn jn h1 h2)"
    using nn lh lu b1 b2
    by (simp add: buffers_ok_def H_def [symmetric])
       (simp add: H_def merged_fields n'_def buffers_ok_def)
  show v: "view_valid (merged bu ju bn jn h1 h2)"
    unfolding H_def [symmetric] view_valid_def tk aa
    using nn lh lu NH mv(2) by (simp add: n1_def n2_def)
  have "\<forall>p\<in>set (merged_view bu ju h1 h2). in_arena H p"
  proof
    fix p assume "p \<in> set (merged_view bu ju h1 h2)"
    then have "p \<in> set (arena_addrs H)"
      using mv(2) aa by (metis n1_def n2_def set_mset_mset)
    with arena_addrs_in_arena [of H p] NH lu nn show "in_arena H p" by simp
  qed
  moreover have "sorted_wrt (\<lambda>p q. view_cmp H p q \<le> 0) (merged_view bu ju h1 h2)"
    using mv(3) by (simp add: view_cmp_le key_def slot_def H_def merged_fields)
  moreover have "length (merged_view bu ju h1 h2) = nat (N H)"
    using mv(1) NH by (simp add: n1_def n2_def)
  ultimately show "view_descending (merged bu ju bn jn h1 h2)"
    unfolding H_def [symmetric] using tk by (intro descending_from_sorted) simp_all
  show "take (nat (N (merged bu ju bn jn h1 h2))) (hit (merged bu ju bn jn h1 h2))
           = merged_view bu ju h1 h2"
    using tk by (simp add: H_def)
  show "nat (N (merged bu ju bn jn h1 h2)) = nat (N h1) + nat (N h2)"
    using NH by (simp add: H_def n1_def n2_def)
qed

lemma inv_list_tb: "tophits_inv list_tb"
  by (simp add: tophits_inv_def buffers_ok_def list_tb_def)

lemma inv_list_r: "tophits_inv list_r"
  by (simp add: tophits_inv_def buffers_ok_def view_valid_def view_descending_def
      arena_addrs_def list_r_def)

lemma inv_list_d: "tophits_inv list_d"
  by (simp add: tophits_inv_def buffers_ok_def view_valid_def view_descending_def
      arena_addrs_def list_d_def)

lemma Merge_list_rd:
  "p7_tophits_Merge insertion_qsort (Mem 700 junk_hit) (Mem 70 junk_addr) list_r list_d
     = Some (eslOK, merged_rd, list_d\<lparr>unsrt := [(mk_hit ''donor'' 1)\<lparr>name := None\<rparr>]\<rparr>)"
  by code_simp

lemma Merge_list_abc_tb:
  "p7_tophits_Merge insertion_qsort (Mem 700 junk_hit) (Mem 70 junk_addr) list_abc list_tb
     = Some (eslOK, merged_abc_tb,
         list_tb_sorted\<lparr>unsrt := [(mk_hit ''bottom'' (- 1))\<lparr>name := None\<rparr>,
                                   (mk_hit ''top'' 20)\<lparr>name := None\<rparr>]\<rparr>)"
  by code_simp

section \<open>Merging: what \<^verbatim>\<open>p7_tophits_Merge\<close> guarantees\<close>

text \<open>
  C5. For any two lists that satisfy the list invariant, with arbitrary sort keys and
  sorted or not, a \<^verbatim>\<open>p7_tophits_Merge\<close> whose two allocations succeed returns
  \<^verbatim>\<open>eslOK\<close> and leaves in the recipient a list of \<open>N + M\<close> records, flagged sorted,
  whose View is a rearrangement of the addresses of all its records along which the sort
  key never increases, and whose records are exactly the recipient's \<open>N\<close> records together
  with the donor's \<open>M\<close> records, as multisets of record values, both in the arena and as
  the View shows them.
\<close>

theorem merge_sorted_union:
  assumes q: "qsort_contract qs" and i1: "tophits_inv h1" and i2: "tophits_inv h2"
  shows "\<exists>h1' h2'. p7_tophits_Merge qs (Mem bu ju) (Mem bn jn) h1 h2 = Some (eslOK, h1', h2') \<and>
           N h1' = N h1 + N h2 \<and> is_sorted h1' \<and> tophits_inv h1' \<and>
           view_valid h1' \<and> view_descending h1' \<and>
           mset (take (nat (N h1')) (unsrt h1'))
             = mset (take (nat (N h1)) (unsrt h1)) + mset (take (nat (N h2)) (unsrt h2)) \<and>
           mset (view_records h1')
             = mset (map Some (take (nat (N h1)) (unsrt h1)))
               + mset (map Some (take (nat (N h2)) (unsrt h2)))"
proof -
  from Sort_keeps_inv [OF q i1] obtain h1a where
    a: "p7_tophits_Sort qs h1 = Some (eslOK, h1a)" "buffers_ok h1a" "is_sorted h1a"
      "view_valid h1a" "view_descending h1a" "N h1a = N h1" "unsrt h1a = unsrt h1"
    by metis
  from Sort_keeps_inv [OF q i2] obtain h2a where
    b: "p7_tophits_Sort qs h2 = Some (eslOK, h2a)" "buffers_ok h2a" "is_sorted h2a"
      "view_valid h2a" "view_descending h2a" "N h2a = N h2" "unsrt h2a = unsrt h2"
    by metis
  define H where "H = merged bu ju bn jn h1a h2a"
  have m: "p7_tophits_Merge qs (Mem bu ju) (Mem bn jn) h1 h2 = Some (eslOK, H, drained h2a)"
    unfolding H_def Merge_after_Sort [OF a(1) b(1)]
    by (rule Merge_sorted [OF a(2,3,4) b(2,3,4)])
  note mi = merged_inv [OF a(2,3,4,5) b(2,4,5), of bu ju bn jn, folded H_def]
  note ma = merged_arena_props [OF a(2) b(2), of ju]
  have n: "N H = N h1 + N h2" by (simp add: H_def merged_fields a b)
  have s: "is_sorted H" by (simp add: H_def merged_fields a)
  have inv: "tophits_inv H" using mi(1,2,3) by (simp add: tophits_inv_def)
  have r: "take (nat (N H)) (unsrt H)
      = take (nat (N h1)) (unsrt h1) @ take (nat (N h2)) (unsrt h2)"
    using ma(2) mi(5) by (simp add: H_def merged_fields a b)
  then have r1: "mset (take (nat (N H)) (unsrt H))
      = mset (take (nat (N h1)) (unsrt h1)) + mset (take (nat (N h2)) (unsrt h2))"
    by simp
  have r2: "mset (view_records H)
             = mset (map Some (take (nat (N h1)) (unsrt h1)))
               + mset (map Some (take (nat (N h2)) (unsrt h2)))"
    by (simp add: view_records_valid [OF mi(2)] r)
  from m n s inv mi(2,3) r1 r2 show ?thesis by blast
qed

theorem merge_sorted_union_witness:
  "p7_tophits_Merge insertion_qsort (Mem 700 junk_hit) (Mem 70 junk_addr) list_abc list_tb
     = Some (eslOK, merged_abc_tb,
         list_tb_sorted\<lparr>unsrt := [(mk_hit ''bottom'' (- 1))\<lparr>name := None\<rparr>,
                                   (mk_hit ''top'' 20)\<lparr>name := None\<rparr>]\<rparr>) \<and>
   N merged_abc_tb = N list_abc + N list_tb \<and>
   view_valid merged_abc_tb \<and> view_descending merged_abc_tb \<and>
   mset (take (nat (N merged_abc_tb)) (unsrt merged_abc_tb))
     = mset (take (nat (N list_abc)) (unsrt list_abc))
       + mset (take (nat (N list_tb)) (unsrt list_tb))"
  using merge_sorted_union [OF insertion_qsort_contract inv_list_abc inv_list_tb,
      of 700 junk_hit 70 junk_addr]
    Merge_list_abc_tb
  by auto

text \<open>
  C1, as the code has it. The merging loop takes the donor's entry only when its sort key
  is strictly greater. So in the merged View, whenever a record that came from the
  recipient (one of the first \<open>N h1\<close> slots of the new arena) and a record that came from
  the donor (the slots behind them) have equal sort keys, the recipient's record is
  placed before the donor's.
\<close>

theorem merge_recipient_first_on_ties:
  assumes q: "qsort_contract qs" and i1: "tophits_inv h1" and i2: "tophits_inv h2"
  shows "\<exists>h1' h2'. p7_tophits_Merge qs (Mem bu ju) (Mem bn jn) h1 h2 = Some (eslOK, h1', h2') \<and>
           (\<forall>k<nat (N h1). unsrt h1' ! k = unsrt h1 ! k) \<and>
           (\<forall>j<nat (N h2). unsrt h1' ! (nat (N h1) + j) = unsrt h2 ! j) \<and>
           (\<forall>x y rx ry. x < nat (N h1') \<and> y < nat (N h1') \<and>
              deref h1' (hit h1' ! x) = Some rx \<and> deref h1' (hit h1' ! y) = Some ry \<and>
              hit h1' ! x < unsrt_base h1' + N h1 \<and> unsrt_base h1' + N h1 \<le> hit h1' ! y \<and>
              sortkey rx = sortkey ry \<longrightarrow> x < y)"
proof -
  from Sort_keeps_inv [OF q i1] obtain h1a where
    a: "p7_tophits_Sort qs h1 = Some (eslOK, h1a)" "buffers_ok h1a" "is_sorted h1a"
      "view_valid h1a" "view_descending h1a" "N h1a = N h1" "unsrt h1a = unsrt h1"
    by metis
  from Sort_keeps_inv [OF q i2] obtain h2a where
    b: "p7_tophits_Sort qs h2 = Some (eslOK, h2a)" "buffers_ok h2a" "is_sorted h2a"
      "view_valid h2a" "view_descending h2a" "N h2a = N h2" "unsrt h2a = unsrt h2"
    by metis
  define H where "H = merged bu ju bn jn h1a h2a"
  define key where "key = (\<lambda>a. sortkey (merged_arena ju h1a h2a ! nat (a - bu)))"
  define M where "M = merged_view bu ju h1a h2a"
  have m: "p7_tophits_Merge qs (Mem bu ju) (Mem bn jn) h1 h2 = Some (eslOK, H, drained h2a)"
    unfolding H_def Merge_after_Sort [OF a(1) b(1)]
    by (rule Merge_sorted [OF a(2,3,4) b(2,3,4)])
  note mi = merged_inv [OF a(2,3,4,5) b(2,4,5), of bu ju bn jn, folded H_def M_def]
  note ma = merged_arena_props [OF a(2) b(2), of ju]
  note mv = merged_view_props [OF a(2,4,5) b(2,4,5) key_def, folded M_def]
  have r1: "\<forall>k<nat (N h1). unsrt H ! k = unsrt h1 ! k"
    using ma(3) by (simp add: H_def merged_fields a)
  have r2: "\<forall>j<nat (N h2). unsrt H ! (nat (N h1) + j) = unsrt h2 ! j"
    using ma(4) by (simp add: H_def merged_fields a b)
  have lM: "length M = nat (N H)" using mv(1) mi(5) by simp
  have t: "x < y"
    if c: "x < nat (N H)" "y < nat (N H)" "deref H (hit H ! x) = Some rx"
      "deref H (hit H ! y) = Some ry" "hit H ! x < unsrt_base H + N h1"
      "unsrt_base H + N h1 \<le> hit H ! y" "sortkey rx = sortkey ry" for x y rx ry
  proof (rule ccontr)
    assume "\<not> x < y"
    moreover from c(5,6) have "x \<noteq> y" by auto
    ultimately have yx: "y < x" by simp
    have ex: "hit H ! x = M ! x" "hit H ! y = M ! y"
      using mi(4) c(1,2) by (metis nth_take)+
    have kx: "key (M ! x) = sortkey rx" and ky: "key (M ! y) = sortkey ry"
      using c(3,4) ex
      by (auto simp add: deref_def key_def slot_def H_def merged_fields split: if_splits)
    from mv(4) yx c(1) lM
    have "bu + N h1a \<le> M ! y \<and> M ! x < bu + N h1a \<longrightarrow> key (M ! x) < key (M ! y)"
      by (simp add: sorted_wrt_iff_nth_less)
    with c(5,6) ex kx ky c(7) show False by (simp add: H_def merged_fields a)
  qed
  from m r1 r2 t show ?thesis by blast
qed

theorem merge_recipient_first_on_ties_witness:
  "p7_tophits_Merge insertion_qsort (Mem 700 junk_hit) (Mem 70 junk_addr) list_r list_d
     = Some (eslOK, merged_rd, list_d\<lparr>unsrt := [(mk_hit ''donor'' 1)\<lparr>name := None\<rparr>]\<rparr>) \<and>
   unsrt merged_rd ! 0 = unsrt list_r ! 0 \<and>
   unsrt merged_rd ! (nat (N list_r) + 0) = unsrt list_d ! 0"
proof -
  have n: "(0::nat) < nat (N list_r)" "(0::nat) < nat (N list_d)"
    by (simp_all add: list_r_def list_d_def)
  from merge_recipient_first_on_ties [OF insertion_qsort_contract inv_list_r inv_list_d,
      of 700 junk_hit 70 junk_addr] Merge_list_rd
  have "\<forall>k<nat (N list_r). unsrt merged_rd ! k = unsrt list_r ! k"
    and "\<forall>j<nat (N list_d). unsrt merged_rd ! (nat (N list_r) + j) = unsrt list_d ! j"
    by auto
  with n Merge_list_rd show ?thesis by blast
qed

text \<open>
  C1, as stated, fails: merging two one-record lists whose records have the same sort
  key puts the recipient's record at View position 0 and the donor's at position 1.
\<close>

theorem merge_donor_first_counterexample:
  "p7_tophits_Merge insertion_qsort (Mem 700 junk_hit) (Mem 70 junk_addr) list_r list_d
     = Some (eslOK, merged_rd, list_d\<lparr>unsrt := [(mk_hit ''donor'' 1)\<lparr>name := None\<rparr>]\<rparr>) \<and>
   sortkey (mk_hit ''recipient'' 1) = sortkey (mk_hit ''donor'' 1) \<and>
   deref merged_rd (hit merged_rd ! 0) = Some (mk_hit ''recipient'' 1) \<and>
   deref merged_rd (hit merged_rd ! 1) = Some (mk_hit ''donor'' 1)"
  by code_simp

text \<open>
  C2 fails on the code. After a successful merge the donor's records have \<open>name\<close>,
  \<open>acc\<close> and \<open>desc\<close> nulled, but not \<open>dcl\<close>: the donor's record still points to the
  domain array that the recipient's copy of the record points to, and
  \<^verbatim>\<open>p7_tophits_Destroy\<close> on the donor hands that array and its alignment display to
  \<^verbatim>\<open>free\<close>.
\<close>

theorem merge_keeps_donor_dcl:
  "p7_tophits_Merge insertion_qsort (Mem 700 junk_hit) (Mem 70 junk_addr) list_r list_dom
     = Some (eslOK,
         \<lparr> hit = [701, 700], hit_base = 70, unsrt = [mk_hit ''recipient'' 1, hit_dom],
           unsrt_base = 700, Nalloc = 2, N = 2, th_nreported = 0, is_sorted = True \<rparr>,
         list_dom\<lparr>unsrt := [hit_dom\<lparr>name := None\<rparr>]\<rparr>) \<and>
   dcl hit_dom = Some [dom_a, dom_b] \<and>
   dcl (hit_dom\<lparr>name := None\<rparr>) = Some [dom_a, dom_b] \<and>
   p7_tophits_Destroy (list_dom\<lparr>unsrt := [hit_dom\<lparr>name := None\<rparr>]\<rparr>)
     = Some [FreeView 50, FreeAd 7000, FreeDcl [dom_a, dom_b], FreeArena 500, FreeStruct]"
  by code_simp

text \<open>
  C3, as the code has it. If one of the two allocations of \<^verbatim>\<open>p7_tophits_Merge\<close> fails,
  the call returns \<^verbatim>\<open>eslEMEM\<close> and no record is lost or changed: in both lists \<open>N\<close>,
  \<open>Nalloc\<close>, the reported count and the records are as before. Both lists have been
  sorted first: the donor is left exactly as \<^verbatim>\<open>p7_tophits_Sort\<close> leaves it, a valid
  list, untouched if it was sorted already. If it is the first allocation that fails, the
  recipient too is exactly as \<^verbatim>\<open>p7_tophits_Sort\<close> leaves it, a valid list,
  untouched if it was sorted already.
\<close>

theorem merge_failure_keeps_records:
  assumes q: "qsort_contract qs" and i1: "tophits_inv h1" and i2: "tophits_inv h2"
    and f: "a1 = NoMem \<or> a2 = NoMem"
  shows "\<exists>h1' h2' h1s.
           p7_tophits_Merge qs a1 a2 h1 h2 = Some (eslEMEM, h1', h2') \<and>
           p7_tophits_Sort qs h1 = Some (eslOK, h1s) \<and>
           p7_tophits_Sort qs h2 = Some (eslOK, h2') \<and>
           N h1' = N h1 \<and> Nalloc h1' = Nalloc h1 \<and> th_nreported h1' = th_nreported h1 \<and>
           take (nat (N h1)) (unsrt h1') = take (nat (N h1)) (unsrt h1) \<and>
           N h2' = N h2 \<and> Nalloc h2' = Nalloc h2 \<and> th_nreported h2' = th_nreported h2 \<and>
           unsrt h2' = unsrt h2 \<and> unsrt_base h2' = unsrt_base h2 \<and>
           hit_base h2' = hit_base h2 \<and> tophits_inv h2' \<and>
           (is_sorted h2 \<longrightarrow> h2' = h2) \<and>
           (a1 = NoMem \<longrightarrow> h1' = h1s \<and> tophits_inv h1' \<and> (is_sorted h1 \<longrightarrow> h1' = h1))"
proof -
  from Sort_keeps_inv [OF q i1] obtain h1a where
    a: "p7_tophits_Sort qs h1 = Some (eslOK, h1a)" "buffers_ok h1a" "is_sorted h1a"
      "view_valid h1a" "view_descending h1a" "N h1a = N h1" "unsrt h1a = unsrt h1"
      "unsrt_base h1a = unsrt_base h1" "Nalloc h1a = Nalloc h1"
      "th_nreported h1a = th_nreported h1" "hit_base h1a = hit_base h1"
      "is_sorted h1 \<longrightarrow> h1a = h1"
    by metis
  from Sort_keeps_inv [OF q i2] obtain h2a where
    b: "p7_tophits_Sort qs h2 = Some (eslOK, h2a)" "buffers_ok h2a" "is_sorted h2a"
      "view_valid h2a" "view_descending h2a" "N h2a = N h2" "unsrt h2a = unsrt h2"
      "unsrt_base h2a = unsrt_base h2" "Nalloc h2a = Nalloc h2"
      "th_nreported h2a = th_nreported h2" "hit_base h2a = hit_base h2"
      "is_sorted h2 \<longrightarrow> h2a = h2"
    by metis
  have inv1: "tophits_inv h1a" using a by (simp add: tophits_inv_def)
  have inv2: "tophits_inv h2a" using b by (simp add: tophits_inv_def)
  show ?thesis
  proof (cases a1)
    case NoMem
    then have "p7_tophits_Merge qs a1 a2 h1 h2 = Some (eslEMEM, h1a, h2a)"
      using a(1) b(1) by (simp add: p7_tophits_Merge_def)
    with NoMem a b inv1 inv2 show ?thesis by auto
  next
    case (Mem bu ju)
    with f have a2: "a2 = NoMem" by simp
    define h1b where "h1b = h1a\<lparr>unsrt := realloc_cells (unsrt h1a)
                                   (nat (Nalloc h1 + Nalloc h2)) ju, unsrt_base := bu\<rparr>"
    have m: "p7_tophits_Merge qs a1 a2 h1 h2 = Some (eslEMEM, h1b, h2a)"
      using a(1) b(1) Mem a2 by (simp add: p7_tophits_Merge_def h1b_def)
    from i1 i2 have "nat (N h1) \<le> length (unsrt h1)"
      "nat (N h1) \<le> nat (Nalloc h1 + Nalloc h2)"
      by (auto simp add: tophits_inv_def buffers_ok_def)
    then have t: "take (nat (N h1)) (unsrt h1b) = take (nat (N h1)) (unsrt h1)"
      by (simp add: h1b_def a realloc_cells_def)
    have "N h1b = N h1" "Nalloc h1b = Nalloc h1" "th_nreported h1b = th_nreported h1"
      using a by (simp_all add: h1b_def)
    with m t Mem a b inv2 show ?thesis by auto
  qed
qed

theorem merge_failure_keeps_records_witness:
  "p7_tophits_Merge insertion_qsort NoMem NoMem list_abc list_tb
     = Some (eslEMEM, list_abc_sorted, list_tb_sorted) \<and>
   N list_abc_sorted = N list_abc \<and> unsrt list_tb_sorted = unsrt list_tb \<and>
   take (nat (N list_abc)) (unsrt list_abc_sorted) = take (nat (N list_abc)) (unsrt list_abc)"
proof -
  have m: "p7_tophits_Merge insertion_qsort NoMem NoMem list_abc list_tb
     = Some (eslEMEM, list_abc_sorted, list_tb_sorted)"
    by code_simp
  from merge_failure_keeps_records [OF insertion_qsort_contract inv_list_abc inv_list_tb,
      of NoMem NoMem] m
  show ?thesis by auto
qed

text \<open>
  C3, as stated, fails: when the first allocation fails on two lists that were not sorted,
  both come back sorted, with their View and their sorted flag changed.
\<close>

theorem merge_failure_mutates_counterexample:
  "p7_tophits_Merge insertion_qsort NoMem NoMem list_abc list_tb
     = Some (eslEMEM, list_abc_sorted, list_tb_sorted) \<and>
   list_abc_sorted \<noteq> list_abc \<and> list_tb_sorted \<noteq> list_tb"
  by code_simp

text \<open>
  When the reallocation of the recipient's arena succeeds and moves the arena, and the
  allocation of the new View then fails, the recipient keeps View entries that point into
  the old arena: the loop that carries them over runs only after both allocations.
\<close>

lemma merge_second_failure_dangling_view:
  "p7_tophits_Merge insertion_qsort (Mem 700 junk_hit) NoMem list_r list_d
     = Some (eslEMEM,
         list_r\<lparr>unsrt := [mk_hit ''recipient'' 1, empty_hit], unsrt_base := 700\<rparr>, list_d) \<and>
   deref list_r (hit list_r ! 0) = Some (mk_hit ''recipient'' 1) \<and>
   deref (list_r\<lparr>unsrt := [mk_hit ''recipient'' 1, empty_hit], unsrt_base := 700\<rparr>)
     (hit (list_r\<lparr>unsrt := [mk_hit ''recipient'' 1, empty_hit], unsrt_base := 700\<rparr>) ! 0)
     = None"
  by code_simp

section \<open>Sorting a list that is flagged sorted\<close>

lemma inv_fresh_list: "buffers_ok fresh_list \<and> is_sorted fresh_list \<and> view_valid fresh_list"
  by (simp add: buffers_ok_def view_valid_def arena_addrs_def fresh_list_def malloc_cells_def)

lemma inv_fresh_list2: "buffers_ok fresh_list2 \<and> is_sorted fresh_list2 \<and> view_valid fresh_list2"
  by (simp add: buffers_ok_def view_valid_def arena_addrs_def fresh_list2_def malloc_cells_def)

lemma merged_fresh:
  "merged 700 junk_hit 70 junk_addr fresh_list fresh_list2 = merged_empty"
proof -
  have "realloc_cells (malloc_cells 256 junk_hit) 512 junk_hit = malloc_cells 512 junk_hit"
  proof -
    have "[0..<512] = [0..<256] @ [256..<512]"
      by (metis (no_types) le_add2 numeral_Bit0 upt_add_eq_append zero_le)
    then show ?thesis by (simp add: realloc_cells_def malloc_cells_def)
  qed
  then show ?thesis
    by (simp add: merged_def merged_view_def merged_arena_def rebased_def fresh_list_def
        fresh_list2_def merged_empty_def)
qed

lemma drained_fresh: "drained fresh_list2 = fresh_list2"
  by (simp add: drained_def fresh_list2_def)

lemma Merge_fresh:
  "p7_tophits_Merge insertion_qsort (Mem 700 junk_hit) (Mem 70 junk_addr) fresh_list fresh_list2
     = Some (eslOK, merged_empty, fresh_list2)"
  using Merge_sorted [of fresh_list fresh_list2 insertion_qsort 700 junk_hit 70 junk_addr]
    inv_fresh_list inv_fresh_list2
  by (simp add: merged_fresh drained_fresh)

lemma not_valid_merged_one: "\<not> view_valid merged_one"
  by (simp add: view_valid_def arena_addrs_def merged_one_def merged_empty_def malloc_cells_def
      take_map junk_addr_def)

text \<open>
  C7 fails on the code. \<^verbatim>\<open>p7_tophits_Sort\<close> returns at once on a list whose sorted flag
  is set, and the other operations produce lists with the flag set and a View that is not
  a rearrangement of the records. Here two lists are created, the second is merged into
  the first (both allocations succeed), and one record is appended (the list has room, no
  allocator is called). The merge has replaced the View by a fresh buffer and, the lists
  being empty, has written nothing to it; the append leaves the flag set because the list
  holds one record. After \<^verbatim>\<open>p7_tophits_Sort\<close> the list holds one record at address 700
  and is flagged sorted, and View entry 0 is still the fresh cell (here 0): it does not
  point to the record, nor into the arena at all.
\<close>

theorem sort_after_empty_merge:
  "p7_tophits_Create True (Mem 10 junk_addr) (Mem 100 junk_hit) = Some fresh_list \<and>
   p7_tophits_Create True (Mem 20 junk_addr) (Mem 2000 junk_hit) = Some fresh_list2 \<and>
   p7_tophits_Merge insertion_qsort (Mem 700 junk_hit) (Mem 70 junk_addr) fresh_list fresh_list2
     = Some (eslOK, merged_empty, fresh_list2) \<and>
   p7_tophits_CreateNextHit NoMem NoMem merged_empty = Some (eslOK, merged_one, Some 700) \<and>
   p7_tophits_Sort insertion_qsort merged_one = Some (eslOK, merged_one) \<and>
   is_sorted merged_one \<and> N merged_one = 1 \<and>
   unsrt_base merged_one = 700 \<and> hit merged_one ! 0 = 0 \<and>
   deref merged_one (hit merged_one ! 0) = None \<and>
   \<not> view_valid merged_one"
proof -
  have a: "p7_tophits_Create True (Mem 10 junk_addr) (Mem 100 junk_hit) = Some fresh_list"
    by (simp add: p7_tophits_Create_def fresh_list_def default_nalloc_def)
  have b: "p7_tophits_Create True (Mem 20 junk_addr) (Mem 2000 junk_hit) = Some fresh_list2"
    by (simp add: p7_tophits_Create_def fresh_list2_def default_nalloc_def)
  have d: "p7_tophits_CreateNextHit NoMem NoMem merged_empty = Some (eslOK, merged_one, Some 700)"
    by (simp add: p7_tophits_CreateNextHit_def p7_tophits_Grow_def poke_def in_arena_def
        slot_def merged_one_def merged_empty_def malloc_cells_def)
  have e: "p7_tophits_Sort insertion_qsort merged_one = Some (eslOK, merged_one)"
    by (simp add: p7_tophits_Sort_def merged_one_def merged_empty_def)
  have f: "is_sorted merged_one" "N merged_one = 1" "unsrt_base merged_one = 700"
    by (simp_all add: merged_one_def merged_empty_def)
  have g: "hit merged_one ! 0 = 0"
    by (simp add: merged_one_def merged_empty_def malloc_cells_def junk_addr_def)
  have h: "deref merged_one (hit merged_one ! 0) = None"
    unfolding g by (simp add: deref_def in_arena_def merged_one_def merged_empty_def)
  from a b Merge_fresh d e f g h not_valid_merged_one show ?thesis by blast
qed

text \<open>
  The same after a merge that fails at its second allocation: the arena has moved to 700,
  the list of three records is flagged sorted, \<^verbatim>\<open>p7_tophits_Sort\<close> returns at once, and
  the View entries still point into the old arena at 100.
\<close>

lemma sort_after_failed_merge:
  "p7_tophits_Merge insertion_qsort (Mem 700 junk_hit) NoMem list_abc list_tb
     = Some (eslEMEM, list_abc_moved, list_tb_sorted) \<and>
   p7_tophits_Sort insertion_qsort list_abc_moved = Some (eslOK, list_abc_moved) \<and>
   is_sorted list_abc_moved \<and> N list_abc_moved = 3 \<and>
   hit list_abc_moved ! 0 = 101 \<and> unsrt_base list_abc_moved = 700 \<and>
   deref list_abc_moved (hit list_abc_moved ! 0) = None"
  by code_simp

end
